theory Spec2Isabelle
  imports Main "HOL-Library.Sublist"
begin

section \<open>Data model\<close>

text \<open>
  Python values as they reach the methods of \<open>UnbounceConnection\<close>: the \<open>filters\<close>
  dictionary of \<open>bulk_extract\<close>, the JSON fields of a record that the methods never
  look at, and the cells pandas makes of them. A dictionary is an association list in
  insertion order. \<open>PFloat m e\<close> is the float \<open>m * 2 ^ e\<close>, \<open>PNaN\<close> is
  \<open>float('nan')\<close>.
\<close>

datatype pyval =
    PNone
  | PBool bool
  | PInt int
  | PFloat int int
  | PNaN
  | PStr string
  | PList "pyval list"
  | PDict "(string \<times> pyval) list"

text \<open>The exceptions the methods raise, or let escape from pandas and from attribute access.\<close>

datatype error = RecursionError | KeyError | AttributeError | ValueError | TypeError

text \<open>
  A Page object as \<open>client.pages.get_pages\<close> returns it. The methods read the fields
  \<open>id\<close>, \<open>createdAt\<close>, \<open>domain\<close> and \<open>state\<close>, which every Page of the server has
  and which are strings. Every other field is in \<open>pg_rest\<close>: any names, any values,
  not the same in every record.
\<close>

record page =
  pg_id :: string
  pg_createdAt :: string
  pg_domain :: string
  pg_state :: string
  pg_rest :: "(string \<times> pyval) list"

text \<open>A row of the Pages DataFrame after \<open>rename(columns={'id': 'page_id'})\<close>.\<close>

record page_row =
  pr_page_id :: string
  pr_createdAt :: string
  pr_domain :: string
  pr_state :: string
  pr_rest :: "(string \<times> pyval) list"

text \<open>A Lead object as \<open>client.pages.get_page_leads\<close> returns it.\<close>

record lead =
  ld_created_at :: string
  ld_id :: string
  ld_page_id :: string
  ld_variant_id :: string
  ld_rest :: "(string \<times> pyval) list"

text \<open>A row of the Leads DataFrame after \<open>rename(columns={'id': 'lead_id'})\<close>.\<close>

record lead_row =
  lr_created_at :: string
  lr_lead_id :: string
  lr_page_id :: string
  lr_variant_id :: string
  lr_rest :: "(string \<times> pyval) list"

subsection \<open>The pandas operations the methods use\<close>

text \<open>
  The dtype of a column, and the columns of a frame: their names in their order, each with
  its dtype.
\<close>

datatype dtype = Dbool | Dint64 | Dfloat64 | Dobject

type_synonym schema = "(string \<times> dtype) list"

text \<open>
  A DataFrame is its columns and its rows, each row with its index label.
  \<open>pd.DataFrame()\<close> and \<open>pd.DataFrame([])\<close> have no columns at all, and selecting a
  column of such a frame raises \<open>KeyError\<close>. A frame that lost all its rows to a boolean
  mask keeps its columns. A row holds the cells of the frame: the four fields the methods
  read, which are strings in columns of dtype object and stay as they are, and in its
  rest the cells of the other columns, which pandas converts to the dtype of their column.
\<close>

datatype 'r frame = Frame (columns: "schema option") (rows: "(nat \<times> 'r) list")

definition has_columns :: "'r frame \<Rightarrow> bool" where
  "has_columns d = (columns d \<noteq> None)"

definition empty_frame :: "'r frame" where
  "empty_frame = Frame None []"

text \<open>
  \<open>pd.DataFrame(records)\<close>: pandas infers the columns and their dtypes from all the
  records (\<open>infer\<close>) and converts every record to a row of these columns (\<open>cast\<close>);
  the rows are labelled \<open>0, 1, 2, ...\<close>
\<close>

definition DataFrame :: "('r list \<Rightarrow> schema) \<Rightarrow> (schema \<Rightarrow> 'r \<Rightarrow> 'r) \<Rightarrow> 'r list \<Rightarrow> 'r frame" where
  "DataFrame infer cast rs =
     (if rs = [] then Frame None []
      else Frame (Some (infer rs)) (List.enumerate 0 (map (cast (infer rs)) rs)))"

text \<open>
  \<open>df.append(other)\<close> keeps the index labels of both frames. A frame without columns
  and rows adds nothing. Frames of the same columns and dtypes give a frame of these
  columns with the rows as they are. Otherwise pandas decides on the columns of the result
  (\<open>join\<close>) and converts the rows of both frames to them (\<open>cast\<close>).
\<close>

definition append_df ::
  "(schema \<Rightarrow> schema \<Rightarrow> schema) \<Rightarrow> (schema \<Rightarrow> 'r \<Rightarrow> 'r) \<Rightarrow> 'r frame \<Rightarrow> 'r frame \<Rightarrow> 'r frame"
where
  "append_df join cast a b =
     (case (columns a, columns b) of
        (None, cb) \<Rightarrow> Frame cb (rows a @ rows b)
      | (Some ca, None) \<Rightarrow> Frame (Some ca) (rows a @ rows b)
      | (Some ca, Some cb) \<Rightarrow>
          if ca = cb then Frame (Some ca) (rows a @ rows b)
          else Frame (Some (join ca cb))
                 (map (\<lambda>(i, r). (i, cast (join ca cb) r)) (rows a @ rows b)))"

text \<open>
  \<open>df.duplicated(subset=..., keep='first')\<close>: the mask is true at a row whose key
  occurred at an earlier row.
\<close>

fun duplicated_from :: "'k list \<Rightarrow> 'k list \<Rightarrow> bool list" where
  "duplicated_from seen [] = []"
| "duplicated_from seen (k # ks) = (k \<in> set seen) # duplicated_from (k # seen) ks"

definition duplicated :: "('r \<Rightarrow> 'k) \<Rightarrow> 'r frame \<Rightarrow> bool list" where
  "duplicated key d = duplicated_from [] (map (\<lambda>(i, r). key r) (rows d))"

text \<open>\<open>df[mask]\<close>: the rows at which the mask is true, labels, columns and dtypes kept.\<close>

definition select_mask :: "'r frame \<Rightarrow> bool list \<Rightarrow> 'r frame" where
  "select_mask d flags = Frame (columns d) (map fst (filter snd (zip (rows d) flags)))"

text \<open>\<open>df.drop_duplicates(subset=..., keep='first')\<close>\<close>

definition drop_duplicates :: "('r \<Rightarrow> 'k) \<Rightarrow> 'r frame \<Rightarrow> 'r frame" where
  "drop_duplicates key d = select_mask d (map Not (duplicated key d))"

text \<open>
  \<open>a.equals(b)\<close>: the same columns in the same order with the same dtypes, the same
  index labels, the same cells.
\<close>

definition equals :: "'r frame \<Rightarrow> 'r frame \<Rightarrow> bool" where
  "equals a b = (columns a = columns b \<and> rows a = rows b)"

text \<open>
  \<open>df.rename(columns={old: new})\<close> changes the name of the column, and every row the
  same way; no label, no dtype.
\<close>

definition rename_df :: "string \<Rightarrow> string \<Rightarrow> ('r \<Rightarrow> 'q) \<Rightarrow> 'r frame \<Rightarrow> 'q frame" where
  "rename_df old new f d =
     Frame (map_option (map (\<lambda>(name, t). (if name = old then new else name, t))) (columns d))
       (map (\<lambda>(i, r). (i, f r)) (rows d))"

text \<open>
  \<open>df[df[col].isin(values)]\<close> and \<open>df[df[col] == value]\<close>: the column must exist;
  the rows whose cell passes the test stay, in their order.
\<close>

definition where_col :: "'r frame \<Rightarrow> ('r \<Rightarrow> bool) \<Rightarrow> error + 'r frame" where
  "where_col d test =
     (if has_columns d then Inr (Frame (columns d) (filter (\<lambda>(i, r). test r) (rows d)))
      else Inl KeyError)"

text \<open>\<open>df.to_dict(orient='records')\<close>: the rows as the frame holds them.\<close>

definition to_dict :: "'r frame \<Rightarrow> 'r list" where
  "to_dict d = map snd (rows d)"

subsection \<open>The connection and the world around it\<close>

text \<open>
  What one request or one \<open>time.sleep\<close> leaves behind. A request event records the
  arguments of the call and the records of the response.
\<close>

datatype event =
    PagesRequest "string option" "string option" "page list"
  | LeadsRequest pyval "string option" "string option" "lead list"
  | Sleep nat

text \<open>
  The world counts the readings of \<open>datetime.now()\<close> and the requests sent, and keeps
  the events in their order.
\<close>

record world =
  clock_reads :: nat
  requests :: nat
  trace :: "event list"

text \<open>
  An \<open>UnbounceConnection\<close> with its surroundings: the bulk extract timeout in seconds,
  the two single-page calls of the client (the answer may depend on how many requests
  were sent before), and the clock: \<open>datetime_now c k\<close> is the \<open>k\<close>-th reading of
  \<open>datetime.now()\<close>, in microseconds. \<open>strptime c s\<close> is the library's
  \<open>datetime.strptime(s, '%Y-%m-%d')\<close>: the day number of the date it parses, or
  \<open>None\<close> where it raises. The last four are what pandas decides: the columns and
  dtypes \<open>pd.DataFrame\<close> infers from a list of Page or of Lead records, the columns and
  dtypes of two frames appended whose columns or dtypes differ, and the cells a row has
  in the columns it is converted to, but for the four fields the methods read.
\<close>

record conn =
  extract_timeout_time :: int
  get_pages :: "nat \<Rightarrow> string option \<Rightarrow> string option \<Rightarrow> page list"
  get_page_leads :: "nat \<Rightarrow> pyval \<Rightarrow> string option \<Rightarrow> string option \<Rightarrow> lead list"
  datetime_now :: "nat \<Rightarrow> int"
  strptime :: "string \<Rightarrow> int option"
  pages_columns :: "page list \<Rightarrow> schema"
  leads_columns :: "lead list \<Rightarrow> schema"
  concat_columns :: "schema \<Rightarrow> schema \<Rightarrow> schema"
  astype :: "schema \<Rightarrow> (string \<times> pyval) list \<Rightarrow> (string \<times> pyval) list"

definition read_clock :: "world \<Rightarrow> world" where
  "read_clock w = w\<lparr>clock_reads := Suc (clock_reads w)\<rparr>"

definition record_event :: "event \<Rightarrow> world \<Rightarrow> world" where
  "record_event e w = w\<lparr>trace := trace w @ [e]\<rparr>"

definition send_request :: "event \<Rightarrow> world \<Rightarrow> world" where
  "send_request e w = record_event e (w\<lparr>requests := Suc (requests w)\<rparr>)"

text \<open>A Page and a Lead as a row of a frame of the columns \<open>cs\<close>.\<close>

definition cast_page :: "conn \<Rightarrow> schema \<Rightarrow> page \<Rightarrow> page" where
  "cast_page c cs p = p\<lparr>pg_rest := astype c cs (pg_rest p)\<rparr>"

definition cast_lead :: "conn \<Rightarrow> schema \<Rightarrow> lead \<Rightarrow> lead" where
  "cast_lead c cs l = l\<lparr>ld_rest := astype c cs (ld_rest l)\<rparr>"

text \<open>
  \<open>timedelta.seconds\<close> of a difference of \<open>d\<close> microseconds: the seconds within the
  day, between 0 and 86399; the whole days are in \<open>timedelta.days\<close>.
\<close>

definition timedelta_seconds :: "int \<Rightarrow> int" where
  "timedelta_seconds d = (d mod 86400000000) div 1000000"

text \<open>\<open>(datetime.now() - START_TIME).seconds > self.extract_timeout_time\<close>\<close>

definition deadline_exceeded :: "conn \<Rightarrow> int \<Rightarrow> world \<Rightarrow> bool" where
  "deadline_exceeded c START_TIME w =
     (timedelta_seconds (datetime_now c (clock_reads w) - START_TIME) > extract_timeout_time c)"

section \<open>bulk\_get\_pages\<close>

text \<open>The variables of a request loop.\<close>

record 'r loop_state =
  df :: "'r frame"
  date_start :: "string option"
  cont :: bool
  itr :: nat
  call_counter :: nat

text \<open>How one pass through the body of a while-loop ends.\<close>

datatype 'a flow = Raise error | Break 'a | Continue 'a

text \<open>
  The counting at the end of the loop body: \<open>itr += 1\<close>, and at 495 a sleep of 60
  seconds and \<open>itr = 0\<close>.
\<close>

definition count_request :: "'r loop_state \<Rightarrow> world \<Rightarrow> 'r loop_state \<times> world" where
  "count_request s w =
     (let s' = s\<lparr>itr := itr s + 1\<rparr>
      in if itr s' = 495 then (s'\<lparr>itr := 0\<rparr>, record_event (Sleep 60) w) else (s', w))"

text \<open>One pass through the body of the while-loop of \<open>bulk_get_pages\<close>.\<close>

definition pages_body ::
  "conn \<Rightarrow> int \<Rightarrow> string option \<Rightarrow> page loop_state \<Rightarrow> world \<Rightarrow> page loop_state flow \<times> world"
where
  "pages_body c START_TIME date_end s w =
     (let w1 = read_clock w in
      if deadline_exceeded c START_TIME w then (Raise RecursionError, w1)
      else
        let pages = get_pages c (requests w1) (date_start s) date_end;
            w2 = send_request (PagesRequest (date_start s) date_end pages) w1;
            new_pages_df = DataFrame (pages_columns c) (cast_page c) pages;
            s1 = s\<lparr>call_counter := call_counter s + 1\<rparr>
        in if pages = [] then (Break s1, w2)
           else
             let appended = append_df (concat_columns c) (cast_page c) (df s1) new_pages_df;
                 pages_dropped = select_mask appended (duplicated pg_id appended);
                 s2 = s1\<lparr>df := drop_duplicates pg_id appended\<rparr>;
                 s3 = s2\<lparr>date_start := Some (pg_createdAt (last pages))\<rparr>;
                 s4 = (if equals new_pages_df pages_dropped then s3\<lparr>cont := False\<rparr> else s3);
                 (s5, w3) = count_request s4 w2
             in (Continue s5, w3))"

text \<open>
  \<open>while cont: body\<close>, with \<open>break\<close> and \<open>raise\<close> inside the body. The loop need
  not end: a client that answers every request with records it has not sent before keeps
  it running, and then the value is \<open>None\<close>.
\<close>

partial_function (option) while_cont ::
  "('r loop_state \<Rightarrow> world \<Rightarrow> 'r loop_state flow \<times> world) \<Rightarrow> 'r loop_state \<Rightarrow> world
     \<Rightarrow> ((error + 'r loop_state) \<times> world) option"
where
  "while_cont body s w =
     (if cont s then
        (case body s w of
           (Raise e, w') \<Rightarrow> Some (Inl e, w')
         | (Break s', w') \<Rightarrow> Some (Inr s', w')
         | (Continue s', w') \<Rightarrow> while_cont body s' w')
      else Some (Inr s, w))"

declare while_cont.simps [code]

text \<open>Python's truth value of an optional list and of an optional string.\<close>

definition truthy :: "'a list option \<Rightarrow> bool" where
  "truthy v = (case v of None \<Rightarrow> False | Some xs \<Rightarrow> xs \<noteq> [])"

definition rename_page :: "page \<Rightarrow> page_row" where
  "rename_page p =
     \<lparr>pr_page_id = pg_id p, pr_createdAt = pg_createdAt p, pr_domain = pg_domain p,
      pr_state = pg_state p, pr_rest = pg_rest p\<rparr>"

text \<open>The part of \<open>bulk_get_pages\<close> after the loop: the renaming and the three filters.\<close>

definition pages_filters ::
  "page frame \<Rightarrow> pyval list option \<Rightarrow> pyval list option \<Rightarrow> string option
     \<Rightarrow> error + page_row list"
where
  "pages_filters pages_df0 domain_list page_id_list state =
     (let pages_df = rename_df ''id'' ''page_id'' rename_page pages_df0 in
      case (if truthy domain_list
            then where_col pages_df (\<lambda>r. PStr (pr_domain r) \<in> set (the domain_list))
            else Inr pages_df) of
        Inl e \<Rightarrow> Inl e
      | Inr pages_df1 \<Rightarrow>
         (case (if truthy page_id_list
                then where_col pages_df1 (\<lambda>r. PStr (pr_page_id r) \<in> set (the page_id_list))
                else Inr pages_df1) of
            Inl e \<Rightarrow> Inl e
          | Inr pages_df2 \<Rightarrow>
             (case (if truthy state
                    then where_col pages_df2 (\<lambda>r. pr_state r = the state)
                    else Inr pages_df2) of
                Inl e \<Rightarrow> Inl e
              | Inr pages_df3 \<Rightarrow> Inr (to_dict pages_df3))))"

definition bulk_get_pages ::
  "conn \<Rightarrow> string option \<Rightarrow> string option \<Rightarrow> pyval list option \<Rightarrow> pyval list option
     \<Rightarrow> string option \<Rightarrow> world \<Rightarrow> ((error + page_row list) \<times> world) option"
where
  "bulk_get_pages c date_start0 date_end domain_list page_id_list state w =
     (let START_TIME = datetime_now c (clock_reads w);
          w0 = read_clock w;
          s0 = \<lparr>df = empty_frame, date_start = date_start0, cont = True, itr = 0,
                call_counter = 1\<rparr>
      in case while_cont (pages_body c START_TIME date_end) s0 w0 of
           None \<Rightarrow> None
         | Some (Inl e, w') \<Rightarrow> Some (Inl e, w')
         | Some (Inr s, w') \<Rightarrow>
             Some (pages_filters (df s) domain_list page_id_list state, w'))"

section \<open>bulk\_get\_leads\<close>

text \<open>The subset of columns by which Lead rows are compared.\<close>

definition lead_key :: "lead \<Rightarrow> string \<times> string \<times> string \<times> string" where
  "lead_key l = (ld_created_at l, ld_id l, ld_page_id l, ld_variant_id l)"

text \<open>One pass through the body of the while-loop of \<open>bulk_get_leads\<close>.\<close>

definition leads_body ::
  "conn \<Rightarrow> int \<Rightarrow> string option \<Rightarrow> pyval \<Rightarrow> lead loop_state \<Rightarrow> world
     \<Rightarrow> lead loop_state flow \<times> world"
where
  "leads_body c START_TIME date_end page_id s w =
     (let w1 = read_clock w in
      if deadline_exceeded c START_TIME w then (Raise RecursionError, w1)
      else
        let leads = get_page_leads c (requests w1) page_id (date_start s) date_end;
            w2 = send_request (LeadsRequest page_id (date_start s) date_end leads) w1;
            new_leads_df = DataFrame (leads_columns c) (cast_lead c) leads;
            s1 = s\<lparr>call_counter := call_counter s + 1\<rparr>
        in if leads = [] then (Break s1, w2)
           else
             let appended = append_df (concat_columns c) (cast_lead c) (df s1) new_leads_df;
                 leads_dropped = select_mask appended (duplicated lead_key appended);
                 s2 = s1\<lparr>df := drop_duplicates lead_key appended\<rparr>;
                 s3 = s2\<lparr>date_start := Some (ld_created_at (last leads))\<rparr>;
                 s4 = (if equals new_leads_df leads_dropped then s3\<lparr>cont := False\<rparr> else s3);
                 (s5, w3) = count_request s4 w2
             in (Continue s5, w3))"

text \<open>
  The for-loop over the Page IDs. \<open>leads_df\<close> and \<open>itr\<close> live on from one Page ID to
  the next; \<open>cont\<close>, \<open>date_start\<close> and \<open>call_counter\<close> are set anew for each.
  (\<open>page_counter\<close> is only printed.)
\<close>

fun leads_for ::
  "conn \<Rightarrow> int \<Rightarrow> string option \<Rightarrow> string option \<Rightarrow> pyval list \<Rightarrow> lead loop_state \<Rightarrow> world
     \<Rightarrow> ((error + lead loop_state) \<times> world) option"
where
  "leads_for c START_TIME OG_DATE_START date_end [] s w = Some (Inr s, w)"
| "leads_for c START_TIME OG_DATE_START date_end (page_id # ids) s w =
     (case while_cont (leads_body c START_TIME date_end page_id)
             (s\<lparr>cont := True, date_start := OG_DATE_START, call_counter := 1\<rparr>) w of
        None \<Rightarrow> None
      | Some (Inl e, w') \<Rightarrow> Some (Inl e, w')
      | Some (Inr s', w') \<Rightarrow> leads_for c START_TIME OG_DATE_START date_end ids s' w')"

text \<open>
  What \<open>page_ids_all\<close> can be: the Python list of the \<open>page_id_list\<close> argument, or the
  \<open>page_id\<close> column (a pandas Series) of the Pages looked up. A Series has the
  attribute \<open>empty\<close>; a list has not, and reading it raises \<open>AttributeError\<close>.
\<close>

datatype id_source = PyList "pyval list" | Series "(nat \<times> pyval) list"

definition dot_empty :: "id_source \<Rightarrow> error + bool" where
  "dot_empty x = (case x of PyList xs \<Rightarrow> Inl AttributeError | Series vs \<Rightarrow> Inr (vs = []))"

definition iterate :: "id_source \<Rightarrow> pyval list" where
  "iterate x = (case x of PyList xs \<Rightarrow> xs | Series vs \<Rightarrow> map snd vs)"

text \<open>
  \<open>pd.DataFrame(records)[col]\<close> for a column of strings: the column as a Series, or
  \<open>KeyError\<close> when there is no record, since the frame has no columns then.
\<close>

definition column_of_records :: "'r list \<Rightarrow> ('r \<Rightarrow> 'v) \<Rightarrow> error + (nat \<times> 'v) list" where
  "column_of_records rs col =
     (if rs = [] then Inl KeyError else Inr (List.enumerate 0 (map col rs)))"

text \<open>The first if-else of \<open>bulk_get_leads\<close>: where the Page IDs come from.\<close>

definition resolve_page_ids ::
  "conn \<Rightarrow> string option \<Rightarrow> pyval list option \<Rightarrow> world \<Rightarrow> ((error + id_source) \<times> world) option"
where
  "resolve_page_ids c date_end page_id_list w =
     (if truthy page_id_list then Some (Inr (PyList (the page_id_list)), w)
      else
        (case bulk_get_pages c None date_end None None None w of
           None \<Rightarrow> None
         | Some (Inl e, w') \<Rightarrow> Some (Inl e, w')
         | Some (Inr pages, w') \<Rightarrow>
             (case column_of_records pages (\<lambda>r. PStr (pr_page_id r)) of
                Inl e \<Rightarrow> Some (Inl e, w')
              | Inr page_ids \<Rightarrow> Some (Inr (Series page_ids), w'))))"

definition rename_lead :: "lead \<Rightarrow> lead_row" where
  "rename_lead l =
     \<lparr>lr_created_at = ld_created_at l, lr_lead_id = ld_id l, lr_page_id = ld_page_id l,
      lr_variant_id = ld_variant_id l, lr_rest = ld_rest l\<rparr>"

text \<open>The part of \<open>bulk_get_leads\<close> after the loops: the renaming and the Lead ID filter.\<close>

definition leads_filters :: "lead frame \<Rightarrow> pyval list option \<Rightarrow> error + lead_row list" where
  "leads_filters leads_df0 lead_id_list =
     (let leads_df = rename_df ''id'' ''lead_id'' rename_lead leads_df0 in
      case (if truthy lead_id_list
            then where_col leads_df (\<lambda>r. PStr (lr_lead_id r) \<in> set (the lead_id_list))
            else Inr leads_df) of
        Inl e \<Rightarrow> Inl e
      | Inr leads_df1 \<Rightarrow> Inr (to_dict leads_df1))"

definition bulk_get_leads ::
  "conn \<Rightarrow> string option \<Rightarrow> string option \<Rightarrow> pyval list option \<Rightarrow> pyval list option \<Rightarrow> world
     \<Rightarrow> ((error + lead_row list) \<times> world) option"
where
  "bulk_get_leads c date_start0 date_end lead_id_list page_id_list w =
     (let START_TIME = datetime_now c (clock_reads w);
          w0 = read_clock w;
          OG_DATE_START = date_start0;
          s0 = \<lparr>df = empty_frame, date_start = date_start0, cont = True, itr = 0,
                call_counter = 1\<rparr>
      in case resolve_page_ids c date_end page_id_list w0 of
           None \<Rightarrow> None
         | Some (Inl e, w1) \<Rightarrow> Some (Inl e, w1)
         | Some (Inr page_ids_all, w1) \<Rightarrow>
             (case dot_empty page_ids_all of
                Inl e \<Rightarrow> Some (Inl e, w1)
              | Inr True \<Rightarrow> Some (Inr [], w1)
              | Inr False \<Rightarrow>
                  (case leads_for c START_TIME OG_DATE_START date_end (iterate page_ids_all)
                          s0 w1 of
                     None \<Rightarrow> None
                   | Some (Inl e, w2) \<Rightarrow> Some (Inl e, w2)
                   | Some (Inr s, w2) \<Rightarrow> Some (leads_filters (df s) lead_id_list, w2))))"

section \<open>Filter processing and bulk\_extract\<close>

definition ACCEPTABLE_DATE_RANGE_KEYS :: "string list" where
  "ACCEPTABLE_DATE_RANGE_KEYS = [''date_start'', ''date_end'']"

text \<open>
  One of the two try-blocks of \<open>process_date_range\<close>: the date is parsed and
  \<open>'T00:00:00.000Z'\<close> is added to the string. The bare \<open>except\<close> turns every failure,
  also that of a value that is no string, into \<open>ValueError\<close>.
\<close>

definition try_date :: "conn \<Rightarrow> pyval \<Rightarrow> error + string \<times> int" where
  "try_date c v =
     (case v of
        PStr s \<Rightarrow>
          (case strptime c s of
             None \<Rightarrow> Inl ValueError
           | Some d \<Rightarrow> Inr (s @ ''T00:00:00.000Z'', d))
      | _ \<Rightarrow> Inl ValueError)"

definition optional_date :: "conn \<Rightarrow> pyval option \<Rightarrow> error + (string \<times> int) option" where
  "optional_date c v =
     (case v of
        None \<Rightarrow> Inr None
      | Some x \<Rightarrow> (case try_date c x of Inl e \<Rightarrow> Inl e | Inr r \<Rightarrow> Inr (Some r)))"

definition process_date_range :: "conn \<Rightarrow> pyval \<Rightarrow> error + string option \<times> string option" where
  "process_date_range c date_range =
     (case date_range of
        PDict d \<Rightarrow>
          if \<exists>key \<in> set (map fst d). key \<notin> set ACCEPTABLE_DATE_RANGE_KEYS then Inl ValueError
          else
            (case optional_date c (map_of d ''date_start'') of
               Inl e \<Rightarrow> Inl e
             | Inr start \<Rightarrow>
                 (case optional_date c (map_of d ''date_end'') of
                    Inl e \<Rightarrow> Inl e
                  | Inr end \<Rightarrow>
                      (case (start, end) of
                         (Some (date_start0, datetime_start), Some (date_end, datetime_end)) \<Rightarrow>
                           if date_start0 \<noteq> [] \<and> date_end \<noteq> [] then
                             if datetime_end - datetime_start = 0 then Inl ValueError
                             else if datetime_end - datetime_start < 0 then Inl ValueError
                             else Inr (Some date_start0, Some date_end)
                           else Inr (Some date_start0, Some date_end)
                       | _ \<Rightarrow> Inr (map_option fst start, map_option fst end))))
      | _ \<Rightarrow> Inl TypeError)"

text \<open>A filter that takes a string or a list: the string becomes a list of one entry.\<close>

definition str_or_list :: "pyval \<Rightarrow> error + pyval list" where
  "str_or_list v =
     (case v of PStr s \<Rightarrow> Inr [PStr s] | PList xs \<Rightarrow> Inr xs | _ \<Rightarrow> Inl TypeError)"

definition optional_list :: "pyval option \<Rightarrow> error + pyval list option" where
  "optional_list v =
     (case v of
        None \<Rightarrow> Inr None
      | Some x \<Rightarrow> (case str_or_list x of Inl e \<Rightarrow> Inl e | Inr xs \<Rightarrow> Inr (Some xs)))"

definition optional_range ::
  "conn \<Rightarrow> pyval option \<Rightarrow> error + string option \<times> string option"
where
  "optional_range c v =
     (case v of None \<Rightarrow> Inr (None, None) | Some date_range \<Rightarrow> process_date_range c date_range)"

definition ACCEPTABLE_STATE_TYPES :: "string list" where
  "ACCEPTABLE_STATE_TYPES = [''published'', ''unpublished'']"

definition optional_state :: "pyval option \<Rightarrow> error + string option" where
  "optional_state v =
     (case v of
        None \<Rightarrow> Inr None
      | Some (PStr s) \<Rightarrow> if s \<notin> set ACCEPTABLE_STATE_TYPES then Inl ValueError else Inr (Some s)
      | Some _ \<Rightarrow> Inl ValueError)"

definition PAGE_FILTER_TYPES :: "string list" where
  "PAGE_FILTER_TYPES = [''created_at'', ''domain'', ''page_id'', ''state'']"

definition LEAD_FILTER_TYPES :: "string list" where
  "LEAD_FILTER_TYPES = [''created_at'', ''lead_id'', ''page_id'']"

text \<open>
  The checks of \<open>process_bulk_pages\<close>, in the order of the method, up to the call of
  \<open>bulk_get_pages\<close>: the arguments of that call, or the error raised.
\<close>

definition page_filter_args ::
  "conn \<Rightarrow> pyval
     \<Rightarrow> error + (string option \<times> string option) \<times> pyval list option \<times> pyval list option
          \<times> string option"
where
  "page_filter_args c filters =
     (case filters of
        PDict f \<Rightarrow>
          if \<exists>key \<in> set (map fst f). key \<notin> set PAGE_FILTER_TYPES then Inl ValueError
          else
            (case optional_range c (map_of f ''created_at'') of
               Inl e \<Rightarrow> Inl e
             | Inr dates \<Rightarrow>
                 (case optional_list (map_of f ''domain'') of
                    Inl e \<Rightarrow> Inl e
                  | Inr domain_list \<Rightarrow>
                      (case optional_list (map_of f ''page_id'') of
                         Inl e \<Rightarrow> Inl e
                       | Inr page_id_list \<Rightarrow>
                           (case optional_state (map_of f ''state'') of
                              Inl e \<Rightarrow> Inl e
                            | Inr state \<Rightarrow> Inr (dates, domain_list, page_id_list, state)))))
      | _ \<Rightarrow> Inl TypeError)"

definition process_bulk_pages ::
  "conn \<Rightarrow> pyval \<Rightarrow> world \<Rightarrow> ((error + page_row list) \<times> world) option"
where
  "process_bulk_pages c filters w =
     (case page_filter_args c filters of
        Inl e \<Rightarrow> Some (Inl e, w)
      | Inr ((date_start0, date_end), domain_list, page_id_list, state) \<Rightarrow>
          bulk_get_pages c date_start0 date_end domain_list page_id_list state w)"

definition lead_filter_args ::
  "conn \<Rightarrow> pyval
     \<Rightarrow> error + (string option \<times> string option) \<times> pyval list option \<times> pyval list option"
where
  "lead_filter_args c filters =
     (case filters of
        PDict f \<Rightarrow>
          if \<exists>key \<in> set (map fst f). key \<notin> set LEAD_FILTER_TYPES then Inl ValueError
          else
            (case optional_range c (map_of f ''created_at'') of
               Inl e \<Rightarrow> Inl e
             | Inr dates \<Rightarrow>
                 (case optional_list (map_of f ''lead_id'') of
                    Inl e \<Rightarrow> Inl e
                  | Inr lead_id_list \<Rightarrow>
                      (case optional_list (map_of f ''page_id'') of
                         Inl e \<Rightarrow> Inl e
                       | Inr page_id_list \<Rightarrow> Inr (dates, lead_id_list, page_id_list))))
      | _ \<Rightarrow> Inl TypeError)"

definition process_bulk_leads ::
  "conn \<Rightarrow> pyval \<Rightarrow> world \<Rightarrow> ((error + lead_row list) \<times> world) option"
where
  "process_bulk_leads c filters w =
     (case lead_filter_args c filters of
        Inl e \<Rightarrow> Some (Inl e, w)
      | Inr ((date_start0, date_end), lead_id_list, page_id_list) \<Rightarrow>
          bulk_get_leads c date_start0 date_end lead_id_list page_id_list w)"

text \<open>What \<open>bulk_extract\<close> returns: Page rows or Lead rows.\<close>

datatype bulk_result = Pages "page_row list" | Leads "lead_row list"

definition ACCEPTABLE_OBJ_TYPES :: "string list" where
  "ACCEPTABLE_OBJ_TYPES = [''pages'', ''leads'']"

definition bulk_extract ::
  "conn \<Rightarrow> string \<Rightarrow> pyval \<Rightarrow> world \<Rightarrow> ((error + bulk_result) \<times> world) option"
where
  "bulk_extract c extract_obj filters w =
     (if extract_obj \<notin> set ACCEPTABLE_OBJ_TYPES then Some (Inl ValueError, w)
      else if extract_obj = ''pages'' then
        map_option (\<lambda>(r, w'). (map_sum id Pages r, w')) (process_bulk_pages c filters w)
      else
        map_option (\<lambda>(r, w'). (map_sum id Leads r, w')) (process_bulk_leads c filters w))"

section \<open>Notions for the proofs\<close>

text \<open>
  The keys of the rows of a frame, and the two halves into which the duplicate mask
  splits rows, given the keys \<open>seen\<close> before them.
\<close>

definition row_keys :: "('r \<Rightarrow> 'k) \<Rightarrow> (nat \<times> 'r) list \<Rightarrow> 'k list" where
  "row_keys key rs = map (\<lambda>(i, r). key r) rs"

definition kept_rows :: "'k list \<Rightarrow> ('r \<Rightarrow> 'k) \<Rightarrow> (nat \<times> 'r) list \<Rightarrow> (nat \<times> 'r) list" where
  "kept_rows seen key rs =
     map fst (filter snd (zip rs (map Not (duplicated_from seen (row_keys key rs)))))"

definition dropped_rows :: "'k list \<Rightarrow> ('r \<Rightarrow> 'k) \<Rightarrow> (nat \<times> 'r) list \<Rightarrow> (nat \<times> 'r) list" where
  "dropped_rows seen key rs =
     map fst (filter snd (zip rs (duplicated_from seen (row_keys key rs))))"

text \<open>The rows with every record changed by \<open>f\<close>, the labels kept.\<close>

definition map_rows :: "('r \<Rightarrow> 'q) \<Rightarrow> (nat \<times> 'r) list \<Rightarrow> (nat \<times> 'q) list" where
  "map_rows f rs = map (\<lambda>(i, r). (i, f r)) rs"

text \<open>
  The shape the two loop bodies share: the deadline check, one request through \<open>fetch\<close>,
  the event \<open>ev\<close> it leaves, the frame of the response built with \<open>infer\<close> and
  \<open>cast\<close>, the duplicates found by \<open>key\<close>, the cursor taken from \<open>created\<close> of the
  last record, and the counting. Both bodies are instances of it.
\<close>

definition fetch_step ::
  "conn \<Rightarrow> int \<Rightarrow> (nat \<Rightarrow> string option \<Rightarrow> 'r list) \<Rightarrow> (string option \<Rightarrow> 'r list \<Rightarrow> event)
     \<Rightarrow> ('r list \<Rightarrow> schema) \<Rightarrow> (schema \<Rightarrow> 'r \<Rightarrow> 'r) \<Rightarrow> ('r \<Rightarrow> 'k) \<Rightarrow> ('r \<Rightarrow> string)
     \<Rightarrow> 'r loop_state \<Rightarrow> world \<Rightarrow> 'r loop_state flow \<times> world"
where
  "fetch_step c START_TIME fetch ev infer cast key created s w =
     (let w1 = read_clock w in
      if deadline_exceeded c START_TIME w then (Raise RecursionError, w1)
      else
        let new = fetch (requests w1) (date_start s);
            w2 = send_request (ev (date_start s) new) w1;
            new_df = DataFrame infer cast new;
            s1 = s\<lparr>call_counter := call_counter s + 1\<rparr>
        in if new = [] then (Break s1, w2)
           else
             let appended = append_df (concat_columns c) cast (df s1) new_df;
                 dropped = select_mask appended (duplicated key appended);
                 s2 = s1\<lparr>df := drop_duplicates key appended\<rparr>;
                 s3 = s2\<lparr>date_start := Some (created (last new))\<rparr>;
                 s4 = (if equals new_df dropped then s3\<lparr>cont := False\<rparr> else s3);
                 (s5, w3) = count_request s4 w2
             in (Continue s5, w3))"

text \<open>The accumulated frame with the frame of a response appended.\<close>

definition grown ::
  "conn \<Rightarrow> ('r list \<Rightarrow> schema) \<Rightarrow> (schema \<Rightarrow> 'r \<Rightarrow> 'r) \<Rightarrow> 'r list \<Rightarrow> 'r frame \<Rightarrow> 'r frame"
where
  "grown c infer cast new d = append_df (concat_columns c) cast d (DataFrame infer cast new)"

text \<open>What a pass that received records leaves in the loop variables.\<close>

definition absorbed ::
  "conn \<Rightarrow> ('r list \<Rightarrow> schema) \<Rightarrow> (schema \<Rightarrow> 'r \<Rightarrow> 'r) \<Rightarrow> ('r \<Rightarrow> 'k) \<Rightarrow> ('r \<Rightarrow> string)
     \<Rightarrow> 'r list \<Rightarrow> 'r loop_state \<Rightarrow> 'r loop_state"
where
  "absorbed c infer cast key created new s =
     \<lparr>df = drop_duplicates key (grown c infer cast new (df s)),
      date_start = Some (created (last new)),
      cont = (cont s \<and>
              \<not> equals (DataFrame infer cast new)
                  (select_mask (grown c infer cast new (df s))
                     (duplicated key (grown c infer cast new (df s))))),
      itr = (if itr s + 1 = 495 then 0 else itr s + 1),
      call_counter = call_counter s + 1\<rparr>"

text \<open>
  The loop variables at the start of a request loop, a world in which nothing has
  happened, and records for the examples.
\<close>

definition initial_state :: "string option \<Rightarrow> 'r loop_state" where
  "initial_state ds = \<lparr>df = empty_frame, date_start = ds, cont = True, itr = 0, call_counter = 1\<rparr>"

definition fresh_world :: world where
  "fresh_world = \<lparr>clock_reads = 0, requests = 0, trace = []\<rparr>"

definition demo_page :: "string \<Rightarrow> page" where
  "demo_page i =
     \<lparr>pg_id = i, pg_createdAt = ''2020-01-01T00:00:00.000Z'', pg_domain = ''example.com'',
      pg_state = ''published'', pg_rest = []\<rparr>"

definition demo_lead :: "string \<Rightarrow> lead" where
  "demo_lead p =
     \<lparr>ld_created_at = ''2020-01-02T00:00:00.000Z'', ld_id = ''lead'', ld_page_id = p,
      ld_variant_id = ''a'', ld_rest = []\<rparr>"

definition demo_strptime :: "string \<Rightarrow> int option" where
  "demo_strptime s =
     (if s = ''2020-01-01'' then Some 737425
      else if s = ''2020-02-01'' then Some 737456
      else None)"

text \<open>
  What pandas decides, for the examples. The names of the other columns of a list of
  records come in the order of their first appearance. A column of booleans only is
  \<open>bool\<close>, of integers only \<open>int64\<close>; a column of numbers where a record has
  \<open>None\<close> or lacks the field is \<open>float64\<close>; every other column is \<open>object\<close>.
  In a \<open>float64\<close> column \<open>None\<close> becomes NaN and an integer a float; a field that
  a record lacks is NaN in every column; every other value stays.
\<close>

definition first_names :: "(string \<times> pyval) list list \<Rightarrow> string list" where
  "first_names rests = rev (remdups (rev (concat (map (map fst) rests))))"

fun is_bool :: "pyval option \<Rightarrow> bool" where
  "is_bool (Some (PBool b)) = True"
| "is_bool v = False"

fun is_int :: "pyval option \<Rightarrow> bool" where
  "is_int (Some (PInt n)) = True"
| "is_int v = False"

fun is_number :: "pyval option \<Rightarrow> bool" where
  "is_number (Some (PInt n)) = True"
| "is_number (Some (PFloat m e)) = True"
| "is_number (Some PNaN) = True"
| "is_number v = False"

fun is_missing :: "pyval option \<Rightarrow> bool" where
  "is_missing None = True"
| "is_missing (Some PNone) = True"
| "is_missing v = False"

definition demo_dtype :: "pyval option list \<Rightarrow> dtype" where
  "demo_dtype vs =
     (if list_all is_bool vs then Dbool
      else if list_all is_int vs then Dint64
      else if list_all (\<lambda>v. is_number v \<or> is_missing v) vs \<and> list_ex is_number vs then Dfloat64
      else Dobject)"

definition demo_rest_columns :: "(string \<times> pyval) list list \<Rightarrow> schema" where
  "demo_rest_columns rests =
     map (\<lambda>name. (name, demo_dtype (map (\<lambda>rest. map_of rest name) rests))) (first_names rests)"

definition demo_pages_columns :: "page list \<Rightarrow> schema" where
  "demo_pages_columns ps =
     [(''id'', Dobject), (''createdAt'', Dobject), (''domain'', Dobject), (''state'', Dobject)]
     @ demo_rest_columns (map pg_rest ps)"

definition demo_leads_columns :: "lead list \<Rightarrow> schema" where
  "demo_leads_columns ls =
     [(''created_at'', Dobject), (''id'', Dobject), (''page_id'', Dobject),
      (''variant_id'', Dobject)]
     @ demo_rest_columns (map ld_rest ls)"

fun demo_cell :: "dtype \<Rightarrow> pyval option \<Rightarrow> pyval" where
  "demo_cell t None = PNaN"
| "demo_cell Dfloat64 (Some PNone) = PNaN"
| "demo_cell Dfloat64 (Some (PInt n)) = PFloat n 0"
| "demo_cell t (Some v) = v"

definition demo_astype :: "schema \<Rightarrow> (string \<times> pyval) list \<Rightarrow> (string \<times> pyval) list" where
  "demo_astype cs rest = map (\<lambda>(name, t). (name, demo_cell t (map_of rest name))) (drop 4 cs)"

fun widened :: "dtype \<Rightarrow> dtype" where
  "widened Dint64 = Dfloat64"
| "widened Dbool = Dobject"
| "widened t = t"

definition common_dtype :: "dtype option \<Rightarrow> dtype option \<Rightarrow> dtype" where
  "common_dtype a b =
     (case (a, b) of
        (Some s, Some t) \<Rightarrow>
          if s = t then s
          else if s \<in> {Dint64, Dfloat64} \<and> t \<in> {Dint64, Dfloat64} then Dfloat64
          else Dobject
      | (Some s, None) \<Rightarrow> widened s
      | (None, Some t) \<Rightarrow> widened t
      | (None, None) \<Rightarrow> Dobject)"

definition demo_concat_columns :: "schema \<Rightarrow> schema \<Rightarrow> schema" where
  "demo_concat_columns ca cb =
     map (\<lambda>name. (name, common_dtype (map_of ca name) (map_of cb name)))
       (map fst ca @ filter (\<lambda>name. name \<notin> set (map fst ca)) (map fst cb))"

text \<open>Connections for the examples.\<close>

definition demo_conn :: conn where
  "demo_conn =
     \<lparr>extract_timeout_time = 3600,
      get_pages = (\<lambda>n ds de. [demo_page ''a'']),
      get_page_leads = (\<lambda>n page_id ds de. case page_id of PStr p \<Rightarrow> [demo_lead p] | _ \<Rightarrow> []),
      datetime_now = (\<lambda>k. 0),
      strptime = demo_strptime,
      pages_columns = demo_pages_columns,
      leads_columns = demo_leads_columns,
      concat_columns = demo_concat_columns,
      astype = demo_astype\<rparr>"

definition slow_conn :: conn where
  "slow_conn = demo_conn\<lparr>extract_timeout_time := 90000,
     datetime_now := (\<lambda>k. if k < 2 then 0 else 90001000000)\<rparr>"

text \<open>
  Five Leads of which each differs from the first in one field of the key only, and a
  connection whose client answers every request for Leads with these five.
\<close>

definition demo_variants :: "lead list" where
  "demo_variants =
     [demo_lead ''a'',
      (demo_lead ''a'')\<lparr>ld_created_at := ''2020-01-03T00:00:00.000Z''\<rparr>,
      (demo_lead ''a'')\<lparr>ld_id := ''other''\<rparr>,
      (demo_lead ''a'')\<lparr>ld_page_id := ''b''\<rparr>,
      (demo_lead ''a'')\<lparr>ld_variant_id := ''b''\<rparr>]"

definition variants_conn :: conn where
  "variants_conn = demo_conn\<lparr>get_page_leads := (\<lambda>n page_id ds de. demo_variants)\<rparr>"

text \<open>
  A connection whose client answers the first request with two Pages that have a field
  \<open>x\<close>, \<open>null\<close> in the one and 1 in the other, and every later request with no Page.
\<close>

definition null_page :: page where
  "null_page = (demo_page ''a'')\<lparr>pg_rest := [(''x'', PNone)]\<rparr>"



text \<open>
  A connection whose client answers the first request with two Pages that have a field
  \<open>x\<close>, \<open>null\<close> in the one and \<open>true\<close> in the other, the second request with
  the second of these Pages alone, and every later request with no Page.
\<close>

definition flag_page :: page where
  "flag_page = (demo_page ''b'')\<lparr>pg_rest := [(''x'', PBool True)]\<rparr>"

definition retype_conn :: conn where
  "retype_conn = demo_conn\<lparr>get_pages :=
     (\<lambda>n ds de. if n = 0 then [null_page, flag_page] else if n = 1 then [flag_page] else [])\<rparr>"

text \<open>The cases of an invalid \<open>filters\<close> argument, as the specification lists them.\<close>

definition validation_error :: "error \<Rightarrow> bool" where
  "validation_error e = (e = ValueError \<or> e = TypeError)"

definition date_of :: "conn \<Rightarrow> pyval \<Rightarrow> int option" where
  "date_of c v = (case v of PStr s \<Rightarrow> strptime c s | _ \<Rightarrow> None)"

definition malformed_date :: "conn \<Rightarrow> pyval option \<Rightarrow> bool" where
  "malformed_date c v = (case v of None \<Rightarrow> False | Some x \<Rightarrow> date_of c x = None)"

definition empty_or_inverted :: "conn \<Rightarrow> pyval option \<Rightarrow> pyval option \<Rightarrow> bool" where
  "empty_or_inverted c v1 v2 =
     (case (v1, v2) of
        (Some x, Some y) \<Rightarrow>
          (case (date_of c x, date_of c y) of
             (Some day_start, Some day_end) \<Rightarrow> day_end \<le> day_start
           | _ \<Rightarrow> False)
      | _ \<Rightarrow> False)"

definition invalid_date_range :: "conn \<Rightarrow> pyval option \<Rightarrow> bool" where
  "invalid_date_range c v =
     (case v of
        None \<Rightarrow> False
      | Some (PDict d) \<Rightarrow>
          (\<exists>key \<in> set (map fst d). key \<noteq> ''date_start'' \<and> key \<noteq> ''date_end'')
          \<or> malformed_date c (map_of d ''date_start'')
          \<or> malformed_date c (map_of d ''date_end'')
          \<or> empty_or_inverted c (map_of d ''date_start'') (map_of d ''date_end'')
      | Some _ \<Rightarrow> True)"

definition wrong_type :: "pyval option \<Rightarrow> bool" where
  "wrong_type v =
     (case v of None \<Rightarrow> False | Some (PStr s) \<Rightarrow> False | Some (PList xs) \<Rightarrow> False | Some _ \<Rightarrow> True)"

definition invalid_state :: "pyval option \<Rightarrow> bool" where
  "invalid_state v =
     (case v of None \<Rightarrow> False | Some x \<Rightarrow> x \<noteq> PStr ''published'' \<and> x \<noteq> PStr ''unpublished'')"

definition invalid_filters :: "conn \<Rightarrow> string \<Rightarrow> pyval \<Rightarrow> bool" where
  "invalid_filters c extract_obj filters =
     (case filters of
        PDict f \<Rightarrow>
          if extract_obj = ''pages'' then
            (\<exists>key \<in> set (map fst f).
                key \<notin> {''created_at'', ''domain'', ''page_id'', ''state''})
            \<or> invalid_date_range c (map_of f ''created_at'')
            \<or> wrong_type (map_of f ''domain'')
            \<or> wrong_type (map_of f ''page_id'')
            \<or> invalid_state (map_of f ''state'')
          else
            (\<exists>key \<in> set (map fst f). key \<notin> {''created_at'', ''lead_id'', ''page_id''})
            \<or> invalid_date_range c (map_of f ''created_at'')
            \<or> wrong_type (map_of f ''lead_id'')
            \<or> wrong_type (map_of f ''page_id'')
      | _ \<Rightarrow> True)"

text \<open>
  The records of a list whose key no earlier record has, in the order of the list: what a
  ResultSet holds of the records received.
\<close>

definition first_seen :: "('r \<Rightarrow> 'k) \<Rightarrow> 'r list \<Rightarrow> 'r list" where
  "first_seen key xs = [xs ! i. i \<leftarrow> [0..<length xs], key (xs ! i) \<notin> key ` set (take i xs)]"

text \<open>The records an event brought: those of a response, by kind of request.\<close>

fun pages_of :: "event \<Rightarrow> page list" where
  "pages_of (PagesRequest ds de ps) = ps"
| "pages_of e = []"

fun leads_of :: "event \<Rightarrow> lead list" where
  "leads_of (LeadsRequest page_id ds de ls) = ls"
| "leads_of e = []"

text \<open>
  The fields of a Page, of a Page row and of a Lead that the methods read, which no
  conversion of pandas touches.
\<close>

definition page_fields :: "page \<Rightarrow> string \<times> string \<times> string \<times> string" where
  "page_fields p = (pg_id p, pg_createdAt p, pg_domain p, pg_state p)"

definition row_fields :: "page_row \<Rightarrow> string \<times> string \<times> string \<times> string" where
  "row_fields r = (pr_page_id r, pr_createdAt r, pr_domain r, pr_state r)"

definition lead_fields :: "lead \<Rightarrow> string \<times> string \<times> string \<times> string" where
  "lead_fields l = (ld_created_at l, ld_id l, ld_page_id l, ld_variant_id l)"

text \<open>
  The loop variable \<open>df\<close> holds, field by field, the first-seen records of all responses
  since the trace was \<open>tr0\<close>, and it has columns exactly when it has rows.
\<close>

definition accumulated ::
  "('r \<Rightarrow> 'f) \<Rightarrow> ('r \<Rightarrow> 'k) \<Rightarrow> (event \<Rightarrow> 'r list) \<Rightarrow> event list \<Rightarrow> 'r loop_state \<Rightarrow> world \<Rightarrow> bool"
where
  "accumulated proj key resp tr0 s w \<longleftrightarrow>
     take (length tr0) (trace w) = tr0 \<and>
     map proj (to_dict (df s)) =
       map proj (first_seen key (concat (map resp (drop (length tr0) (trace w))))) \<and>
     has_columns (df s) = (rows (df s) \<noteq> [])"



definition received_pages :: "world \<Rightarrow> world \<Rightarrow> page list" where
  "received_pages w w' = concat (map pages_of (drop (length (trace w)) (trace w')))"

definition received_leads :: "world \<Rightarrow> world \<Rightarrow> lead list" where
  "received_leads w w' = concat (map leads_of (drop (length (trace w)) (trace w')))"

text \<open>
  The request counter as the events show it: the counts it can stand at after the events,
  from the count \<open>n\<close>. A request whose response holds records counts one more. Whether a
  request whose response is empty counts is left open: both are taken along. At 495
  nothing but the sleep of 60 seconds may follow, and it sets the count to 0; a sleep
  happens at no other count. The set is empty when the events go with no such counter.
\<close>

fun governor :: "nat \<Rightarrow> event list \<Rightarrow> nat set" where
  "governor n [] = {n}"
| "governor n (Sleep d # es) = (if n = 495 \<and> d = 60 then governor 0 es else {})"
| "governor n (PagesRequest ds de ps # es) =
     (if n = 495 then {}
      else governor (n + 1) es \<union> (if ps = [] then governor n es else {}))"
| "governor n (LeadsRequest page_id ds de ls # es) =
     (if n = 495 then {}
      else governor (n + 1) es \<union> (if ls = [] then governor n es else {}))"

fun is_pages_request :: "event \<Rightarrow> bool" where
  "is_pages_request (PagesRequest ds de ps) = True"
| "is_pages_request e = False"

fun is_leads_request :: "event \<Rightarrow> bool" where
  "is_leads_request (LeadsRequest page_id ds de ls) = True"
| "is_leads_request e = False"

text \<open>
  The events since the trace was \<open>tr0\<close> are of the kind \<open>K\<close> and go with a counter that
  started at \<open>n0\<close> and now stands at \<open>m\<close>, below 495.
\<close>

definition governed :: "(event \<Rightarrow> bool) \<Rightarrow> event list \<Rightarrow> nat \<Rightarrow> nat \<Rightarrow> world \<Rightarrow> bool" where
  "governed K tr0 n0 m w \<longleftrightarrow>
     take (length tr0) (trace w) = tr0 \<and>
     list_all K (drop (length tr0) (trace w)) \<and>
     m \<in> governor n0 (drop (length tr0) (trace w)) \<and> m < 495"

text \<open>An event that a counter of requests with records counts.\<close>

fun counted :: "event \<Rightarrow> bool" where
  "counted (PagesRequest ds de ps) = (ps \<noteq> [])"
| "counted (LeadsRequest page_id ds de ls) = (ls \<noteq> [])"
| "counted (Sleep d) = False"

text \<open>
  A connection to an account of 247 Pages, each with one Lead: the look-up of the Pages
  takes two requests, the Leads of each Page take two.
\<close>

definition busy_ids :: "string list" where
  "busy_ids = map (\<lambda>i. replicate (Suc i) CHR ''p'') [0..<247]"

definition busy_conn :: conn where
  "busy_conn = demo_conn\<lparr>get_pages := (\<lambda>n ds de. map demo_page busy_ids)\<rparr>"

text \<open>The two requests for the Leads of the Page \<open>p\<close>, at a start date \<open>og\<close>.\<close>

definition lead_requests :: "string option \<Rightarrow> string option \<Rightarrow> string \<Rightarrow> event list" where
  "lead_requests og de p =
     [LeadsRequest (PStr p) og de [demo_lead p],
      LeadsRequest (PStr p) (Some (ld_created_at (demo_lead p))) de [demo_lead p]]"

section \<open>Duplicates and the loop body\<close>

lemma row_keys_simps [simp]:
  "row_keys key [] = []"
  "row_keys key ((i, r) # rs) = key r # row_keys key rs"
  "row_keys key (a @ b) = row_keys key a @ row_keys key b"
  by (simp_all add: row_keys_def)

lemma length_row_keys [simp]: "length (row_keys key rs) = length rs"
  by (simp add: row_keys_def)

lemma row_keys_enumerate [simp]: "row_keys key (List.enumerate n xs) = map key xs"
  by (induction xs arbitrary: n) simp_all

lemma length_duplicated_from [simp]: "length (duplicated_from seen ks) = length ks"
  by (induction ks arbitrary: seen) simp_all

lemma duplicated_from_cong: "set seen = set seen' \<Longrightarrow> duplicated_from seen ks = duplicated_from seen' ks"
proof (induction ks arbitrary: seen seen')
  case Nil
  then show ?case by simp
next
  case (Cons k ks)
  have "set (k # seen) = set (k # seen')" using Cons.prems by simp
  then have "duplicated_from (k # seen) ks = duplicated_from (k # seen') ks"
    by (rule Cons.IH)
  then show ?case using Cons.prems by simp
qed

lemma duplicated_from_append:
  "duplicated_from seen (ks @ ks') = duplicated_from seen ks @ duplicated_from (rev ks @ seen) ks'"
proof (induction ks arbitrary: seen)
  case Nil
  then show ?case by simp
next
  case (Cons k ks)
  have "duplicated_from ((rev ks @ [k]) @ seen) ks' = duplicated_from (rev ks @ k # seen) ks'"
    by (rule duplicated_from_cong) simp
  then show ?case using Cons.IH [of "k # seen"] by simp
qed

lemma kept_rows_simps [simp]:
  "kept_rows seen key [] = []"
  "kept_rows seen key ((i, r) # rs) =
     (if key r \<in> set seen then kept_rows (key r # seen) key rs
      else (i, r) # kept_rows (key r # seen) key rs)"
  by (simp_all add: kept_rows_def)

lemma dropped_rows_simps [simp]:
  "dropped_rows seen key [] = []"
  "dropped_rows seen key ((i, r) # rs) =
     (if key r \<in> set seen then (i, r) # dropped_rows (key r # seen) key rs
      else dropped_rows (key r # seen) key rs)"
  by (simp_all add: dropped_rows_def)

lemma kept_rows_cong: "set seen = set seen' \<Longrightarrow> kept_rows seen key rs = kept_rows seen' key rs"
  by (simp add: kept_rows_def duplicated_from_cong [of seen seen'])

lemma dropped_rows_cong: "set seen = set seen' \<Longrightarrow> dropped_rows seen key rs = dropped_rows seen' key rs"
  by (simp add: dropped_rows_def duplicated_from_cong [of seen seen'])

lemma kept_rows_append:
  "kept_rows seen key (a @ b) = kept_rows seen key a @ kept_rows (row_keys key a @ seen) key b"
proof (induction a arbitrary: seen)
  case Nil
  then show ?case by simp
next
  case (Cons x a)
  obtain i r where x: "x = (i, r)" by (cases x)
  have "kept_rows (row_keys key a @ key r # seen) key b = kept_rows (key r # row_keys key a @ seen) key b"
    by (rule kept_rows_cong) auto
  then show ?case using Cons.IH [of "key r # seen"] by (simp add: x)
qed

lemma dropped_rows_append:
  "dropped_rows seen key (a @ b) = dropped_rows seen key a @ dropped_rows (row_keys key a @ seen) key b"
proof (induction a arbitrary: seen)
  case Nil
  then show ?case by simp
next
  case (Cons x a)
  obtain i r where x: "x = (i, r)" by (cases x)
  have "dropped_rows (row_keys key a @ key r # seen) key b = dropped_rows (key r # row_keys key a @ seen) key b"
    by (rule dropped_rows_cong) auto
  then show ?case using Cons.IH [of "key r # seen"] by (simp add: x)
qed

lemma kept_rows_distinct:
  "distinct (row_keys key a) \<Longrightarrow> set (row_keys key a) \<inter> set seen = {} \<Longrightarrow> kept_rows seen key a = a"
proof (induction a arbitrary: seen)
  case Nil
  then show ?case by simp
next
  case (Cons x a)
  obtain i r where x: "x = (i, r)" by (cases x)
  from Cons.prems have "distinct (row_keys key a)" "set (row_keys key a) \<inter> set (key r # seen) = {}" "key r \<notin> set seen"
    by (auto simp: x)
  then show ?case using Cons.IH [of "key r # seen"] by (simp add: x)
qed

lemma dropped_rows_distinct:
  "distinct (row_keys key a) \<Longrightarrow> set (row_keys key a) \<inter> set seen = {} \<Longrightarrow> dropped_rows seen key a = []"
proof (induction a arbitrary: seen)
  case Nil
  then show ?case by simp
next
  case (Cons x a)
  obtain i r where x: "x = (i, r)" by (cases x)
  from Cons.prems have "distinct (row_keys key a)" "set (row_keys key a) \<inter> set (key r # seen) = {}" "key r \<notin> set seen"
    by (auto simp: x)
  then show ?case using Cons.IH [of "key r # seen"] by (simp add: x)
qed

lemma length_dropped_rows: "length (dropped_rows seen key rs) \<le> length rs"
proof (induction rs arbitrary: seen)
  case Nil
  then show ?case by simp
next
  case (Cons x rs)
  obtain i r where x: "x = (i, r)" by (cases x)
  show ?case using Cons.IH [of "key r # seen"] by (simp add: x)
qed

lemma dropped_rows_all_iff:
  "dropped_rows seen key rs = rs \<longleftrightarrow> set (row_keys key rs) \<subseteq> set seen"
proof (induction rs arbitrary: seen)
  case Nil
  then show ?case by simp
next
  case (Cons x rs)
  obtain i r where x: "x = (i, r)" by (cases x)
  show ?case
  proof (cases "key r \<in> set seen")
    case True
    then have "set (key r # seen) = set seen" by auto
    with Cons.IH [of "key r # seen"] True show ?thesis by (simp add: x)
  next
    case False
    have "length (dropped_rows (key r # seen) key rs) \<le> length rs"
      by (rule length_dropped_rows)
    then have "dropped_rows (key r # seen) key rs \<noteq> (i, r) # rs"
      by (metis impossible_Cons)
    with False show ?thesis by (simp add: x)
  qed
qed

lemma kept_rows_all_dropped:
  "set (row_keys key rs) \<subseteq> set seen \<Longrightarrow> kept_rows seen key rs = []"
proof (induction rs arbitrary: seen)
  case Nil
  then show ?case by simp
next
  case (Cons x rs)
  obtain i r where x: "x = (i, r)" by (cases x)
  from Cons.prems have "key r \<in> set seen" "set (row_keys key rs) \<subseteq> set (key r # seen)"
    by (auto simp: x)
  then show ?case using Cons.IH [of "key r # seen"] by (simp add: x)
qed

lemma keys_kept_rows:
  "distinct (row_keys key (kept_rows seen key rs)) \<and>
   set (row_keys key (kept_rows seen key rs)) = set (row_keys key rs) - set seen"
proof (induction rs arbitrary: seen)
  case Nil
  then show ?case by simp
next
  case (Cons x rs)
  obtain i r where x: "x = (i, r)" by (cases x)
  show ?case using Cons.IH [of "key r # seen"] by (auto simp: x)
qed

lemma rows_drop_duplicates: "rows (drop_duplicates key d) = kept_rows [] key (rows d)"
  by (simp add: drop_duplicates_def select_mask_def duplicated_def kept_rows_def row_keys_def)

lemma rows_dropped: "rows (select_mask d (duplicated key d)) = dropped_rows [] key (rows d)"
  by (simp add: select_mask_def duplicated_def dropped_rows_def row_keys_def)

lemma map_rows_simps [simp]:
  "map_rows f [] = []"
  "map_rows f ((i, r) # rs) = (i, f r) # map_rows f rs"
  "map_rows f (a @ b) = map_rows f a @ map_rows f b"
  by (simp_all add: map_rows_def)

lemma length_map_rows [simp]: "length (map_rows f rs) = length rs"
  by (simp add: map_rows_def)

lemma map_rows_Nil_iff [simp]: "map_rows f rs = [] \<longleftrightarrow> rs = []"
  by (simp add: map_rows_def)

lemma map_rows_map_rows: "map_rows f (map_rows g rs) = map_rows (\<lambda>r. f (g r)) rs"
  by (induction rs) auto

lemma map_rows_cong: "(\<And>r. f r = g r) \<Longrightarrow> map_rows f rs = map_rows g rs"
  by (induction rs) auto


lemma enumerate_map_rows: "List.enumerate n (map f xs) = map_rows f (List.enumerate n xs)"
  by (induction xs arbitrary: n) simp_all

lemma row_keys_map_rows: "row_keys k (map_rows proj rs) = row_keys (\<lambda>r. k (proj r)) rs"
  by (induction rs) auto

lemma kept_rows_map_rows:
  "kept_rows seen k (map_rows proj rs) = map_rows proj (kept_rows seen (\<lambda>r. k (proj r)) rs)"
proof (induction rs arbitrary: seen)
  case Nil
  then show ?case by simp
next
  case (Cons x rs)
  obtain i r where x: "x = (i, r)" by (cases x)
  show ?case using Cons.IH [of "k (proj r) # seen"] by (simp add: x)
qed

lemma dropped_rows_map_rows:
  "dropped_rows seen k (map_rows proj rs) = map_rows proj (dropped_rows seen (\<lambda>r. k (proj r)) rs)"
proof (induction rs arbitrary: seen)
  case Nil
  then show ?case by simp
next
  case (Cons x rs)
  obtain i r where x: "x = (i, r)" by (cases x)
  show ?case using Cons.IH [of "k (proj r) # seen"] by (simp add: x)
qed

lemma dropped_rows_length_iff:
  "length (dropped_rows seen key rs) = length rs \<longleftrightarrow> set (row_keys key rs) \<subseteq> set seen"
proof (induction rs arbitrary: seen)
  case Nil
  then show ?case by simp
next
  case (Cons x rs)
  obtain i r where x: "x = (i, r)" by (cases x)
  show ?case
  proof (cases "key r \<in> set seen")
    case True
    then have "set (key r # seen) = set seen" by auto
    with Cons.IH [of "key r # seen"] True show ?thesis by (simp add: x)
  next
    case False
    have "length (dropped_rows (key r # seen) key rs) \<le> length rs"
      by (rule length_dropped_rows)
    with False show ?thesis by (simp add: x)
  qed
qed

text \<open>
  The frame of a response appended: when the accumulated frame has no columns yet or has
  the columns of the response, the rows are simply put together.
\<close>

lemma grown_uniform:
  assumes "new \<noteq> []" and "columns d = None \<or> columns d = Some (infer new)"
  shows "grown c infer cast new d =
           Frame (Some (infer new)) (rows d @ map_rows (cast (infer new)) (List.enumerate 0 new))"
  using assms by (auto simp: grown_def append_df_def DataFrame_def enumerate_map_rows)

text \<open>In every case the rows are those of both frames, in what no conversion touches.\<close>

lemma grown_proj:
  assumes "new \<noteq> []" and "\<And>cs r. proj (cast cs r) = proj r"
  shows "map_rows proj (rows (grown c infer cast new d)) =
           map_rows proj (rows d @ List.enumerate 0 new)"
    and "has_columns (grown c infer cast new d)"
proof -
  have m: "map_rows proj (map_rows (cast cs) rs) = map_rows proj rs" for cs rs
    by (simp add: map_rows_map_rows assms(2))
  have e: "map (\<lambda>(i, r). (i, cast cs r)) rs = map_rows (cast cs) rs" for cs rs
    by (simp add: map_rows_def)
  show "map_rows proj (rows (grown c infer cast new d)) =
           map_rows proj (rows d @ List.enumerate 0 new)"
    using assms(1)
    by (cases "columns d")
       (simp_all add: grown_def append_df_def DataFrame_def enumerate_map_rows e m
          del: map_rows_simps(3), simp_all add: m)
  show "has_columns (grown c infer cast new d)"
    using assms(1)
    by (cases "columns d") (simp_all add: grown_def append_df_def DataFrame_def has_columns_def)
qed

lemma absorb_kept:
  assumes "distinct (row_keys key (rows d))" and "new \<noteq> []"
    and "\<And>cs r. proj (cast cs r) = proj r" and "\<And>r. key r = k (proj r)"
  shows "map_rows proj (rows (drop_duplicates key (grown c infer cast new d))) =
           map_rows proj (rows d @ kept_rows (row_keys key (rows d)) key (List.enumerate 0 new))"
proof -
  let ?g = "grown c infer cast new d"
  have key: "key = (\<lambda>r. k (proj r))" using assms(4) by (simp add: fun_eq_iff)
  have "map_rows proj (rows (drop_duplicates key ?g)) = kept_rows [] k (map_rows proj (rows ?g))"
    by (simp add: rows_drop_duplicates kept_rows_map_rows key)
  also have "\<dots> = kept_rows [] k (map_rows proj (rows d @ List.enumerate 0 new))"
    by (simp only: grown_proj(1) [where proj = proj and cast = cast, OF assms(2,3)])
  also have "\<dots> = map_rows proj (kept_rows [] key (rows d @ List.enumerate 0 new))"
    by (simp only: kept_rows_map_rows key)
  also have "kept_rows [] key (rows d @ List.enumerate 0 new) =
               rows d @ kept_rows (row_keys key (rows d)) key (List.enumerate 0 new)"
    using assms(1) by (simp add: kept_rows_append kept_rows_distinct)
  finally show ?thesis .
qed

lemma absorb_dropped:
  assumes "distinct (row_keys key (rows d))" and "new \<noteq> []"
    and "\<And>cs r. proj (cast cs r) = proj r" and "\<And>r. key r = k (proj r)"
  shows "map_rows proj (rows (select_mask (grown c infer cast new d)
                                (duplicated key (grown c infer cast new d)))) =
           map_rows proj (dropped_rows (row_keys key (rows d)) key (List.enumerate 0 new))"
proof -
  let ?g = "grown c infer cast new d"
  have key: "key = (\<lambda>r. k (proj r))" using assms(4) by (simp add: fun_eq_iff)
  have "map_rows proj (rows (select_mask ?g (duplicated key ?g))) =
          dropped_rows [] k (map_rows proj (rows ?g))"
    by (simp add: rows_dropped dropped_rows_map_rows key)
  also have "\<dots> = dropped_rows [] k (map_rows proj (rows d @ List.enumerate 0 new))"
    by (simp only: grown_proj(1) [where proj = proj and cast = cast, OF assms(2,3)])
  also have "\<dots> = map_rows proj (dropped_rows [] key (rows d @ List.enumerate 0 new))"
    by (simp only: dropped_rows_map_rows key)
  also have "dropped_rows [] key (rows d @ List.enumerate 0 new) =
               dropped_rows (row_keys key (rows d)) key (List.enumerate 0 new)"
    using assms(1) by (simp add: dropped_rows_append dropped_rows_distinct)
  finally show ?thesis .
qed

text \<open>
  The test that ends the loop: it holds only when every key of the response is among the
  accumulated keys; and it holds then, when the accumulated frame has no columns yet or
  has the columns of the response.
\<close>

lemma equals_dropped_subset:
  assumes "distinct (row_keys key (rows d))" and "new \<noteq> []"
    and "\<And>cs r. key (cast cs r) = key r"
    and "equals (DataFrame infer cast new)
           (select_mask (grown c infer cast new d) (duplicated key (grown c infer cast new d)))"
  shows "set (map key new) \<subseteq> set (row_keys key (rows d))"
proof -
  let ?dropped = "select_mask (grown c infer cast new d) (duplicated key (grown c infer cast new d))"
  have "rows ?dropped = rows (DataFrame infer cast new)"
    using assms(4) by (simp add: equals_def)
  then have "length (map_rows key (rows ?dropped)) = length new"
    using assms(2) by (simp add: DataFrame_def)
  moreover have "map_rows key (rows ?dropped) =
      map_rows key (dropped_rows (row_keys key (rows d)) key (List.enumerate 0 new))"
    by (rule absorb_dropped [where k = "\<lambda>x. x" and proj = key and key = key and cast = cast,
          OF assms(1,2,3)]) simp
  ultimately have "length (dropped_rows (row_keys key (rows d)) key (List.enumerate 0 new)) =
      length (List.enumerate 0 new)"
    by simp
  then have "set (row_keys key (List.enumerate 0 new)) \<subseteq> set (row_keys key (rows d))"
    by (simp only: dropped_rows_length_iff)
  then show ?thesis by simp
qed

lemma equals_dropped_iff:
  assumes "distinct (row_keys key (rows d))" and "new \<noteq> []"
    and "\<And>cs r. key (cast cs r) = key r"
    and "columns d = None \<or> columns d = Some (infer new)"
  shows "equals (DataFrame infer cast new)
           (select_mask (grown c infer cast new d) (duplicated key (grown c infer cast new d)))
         \<longleftrightarrow> set (map key new) \<subseteq> set (row_keys key (rows d))"
proof -
  let ?N = "map_rows (cast (infer new)) (List.enumerate 0 new)"
  let ?K = "row_keys key (rows d)"
  have g: "grown c infer cast new d = Frame (Some (infer new)) (rows d @ ?N)"
    by (rule grown_uniform [where infer = infer and new = new, OF assms(2,4)])
  have kN: "row_keys key ?N = map key new"
    by (simp add: row_keys_map_rows assms(3))
  have "rows (select_mask (grown c infer cast new d) (duplicated key (grown c infer cast new d))) =
          dropped_rows ?K key ?N"
    using assms(1) by (simp add: rows_dropped g dropped_rows_append dropped_rows_distinct)
  moreover have "columns (select_mask (grown c infer cast new d)
                   (duplicated key (grown c infer cast new d))) = Some (infer new)"
    by (simp add: select_mask_def g)
  ultimately have "equals (DataFrame infer cast new)
           (select_mask (grown c infer cast new d) (duplicated key (grown c infer cast new d)))
         \<longleftrightarrow> dropped_rows ?K key ?N = ?N"
    using assms(2) by (auto simp: equals_def DataFrame_def enumerate_map_rows)
  also have "\<dots> \<longleftrightarrow> set (row_keys key ?N) \<subseteq> set ?K"
    by (rule dropped_rows_all_iff)
  finally show ?thesis by (simp add: kN)
qed

lemma pages_body_fetch_step:
  "pages_body c START_TIME date_end =
     fetch_step c START_TIME (\<lambda>n ds. get_pages c n ds date_end)
       (\<lambda>ds ps. PagesRequest ds date_end ps) (pages_columns c) (cast_page c) pg_id pg_createdAt"
  by (simp add: fun_eq_iff pages_body_def fetch_step_def Let_def)

lemma leads_body_fetch_step:
  "leads_body c START_TIME date_end page_id =
     fetch_step c START_TIME (\<lambda>n ds. get_page_leads c n page_id ds date_end)
       (\<lambda>ds ls. LeadsRequest page_id ds date_end ls) (leads_columns c) (cast_lead c)
       lead_key ld_created_at"
  by (simp add: fun_eq_iff leads_body_def fetch_step_def Let_def)

lemma fetch_step_deadline:
  "deadline_exceeded c st w \<Longrightarrow>
     fetch_step c st fetch ev infer cast key created s w = (Raise RecursionError, read_clock w)"
  by (simp add: fetch_step_def)

lemma fetch_step_empty:
  "\<not> deadline_exceeded c st w \<Longrightarrow> fetch (requests w) (date_start s) = [] \<Longrightarrow>
     fetch_step c st fetch ev infer cast key created s w =
       (Break (s\<lparr>call_counter := call_counter s + 1\<rparr>),
        send_request (ev (date_start s) []) (read_clock w))"
  by (simp add: fetch_step_def read_clock_def)

lemma fetch_step_records:
  assumes "\<not> deadline_exceeded c st w" and "fetch (requests w) (date_start s) = new" and "new \<noteq> []"
  shows "fetch_step c st fetch ev infer cast key created s w =
           (Continue (absorbed c infer cast key created new s),
            (if itr s + 1 = 495 then record_event (Sleep 60) else id)
              (send_request (ev (date_start s) new) (read_clock w)))"
proof -
  have req: "fetch (requests (read_clock w)) (date_start s) = new"
    using assms(2) by (simp add: read_clock_def)
  show ?thesis
    using assms(1,3)
    by (simp add: fetch_step_def Let_def req absorbed_def grown_def count_request_def)
qed

lemmas world_defs = read_clock_def record_event_def send_request_def
lemmas frame_defs = empty_frame_def DataFrame_def append_df_def duplicated_def select_mask_def
  drop_duplicates_def equals_def rename_df_def where_col_def to_dict_def column_of_records_def
  has_columns_def

lemma while_cont_break:
  "cont s \<Longrightarrow> body s w = (Break s', w') \<Longrightarrow> while_cont body s w = Some (Inr s', w')"
  by (subst while_cont.simps) simp

lemma while_cont_raise:
  "cont s \<Longrightarrow> body s w = (Raise e, w') \<Longrightarrow> while_cont body s w = Some (Inl e, w')"
  by (subst while_cont.simps) simp

lemma while_cont_continue:
  "cont s \<Longrightarrow> body s w = (Continue s', w') \<Longrightarrow> while_cont body s w = while_cont body s' w'"
  by (subst while_cont.simps) simp

lemma while_cont_done: "\<not> cont s \<Longrightarrow> while_cont body s w = Some (Inr s, w)"
  by (subst while_cont.simps) simp

lemma deadline_exceeded_cong:
  "clock_reads w = clock_reads w' \<Longrightarrow> deadline_exceeded c st w = deadline_exceeded c st w'"
  by (simp add: deadline_exceeded_def)

text \<open>What a pass that received records leaves in \<open>df\<close> and in \<open>cont\<close>.\<close>

lemma absorbed_simps [simp]:
  "date_start (absorbed c infer cast key created new s) = Some (created (last new))"
  "itr (absorbed c infer cast key created new s) = (if itr s + 1 = 495 then 0 else itr s + 1)"
  "call_counter (absorbed c infer cast key created new s) = call_counter s + 1"
  by (simp_all add: absorbed_def)

lemma absorbed_proj:
  assumes "distinct (row_keys key (rows (df s)))" and "new \<noteq> []"
    and "\<And>cs r. proj (cast cs r) = proj r" and "\<And>r. key r = k (proj r)"
  shows "map_rows proj (rows (df (absorbed c infer cast key created new s))) =
           map_rows proj (rows (df s) @
             kept_rows (row_keys key (rows (df s))) key (List.enumerate 0 new))"
  using absorb_kept [where proj = proj and k = k and cast = cast and key = key, OF assms(1,2,3,4)]
  by (simp add: absorbed_def)

lemma absorbed_keys:
  assumes "distinct (row_keys key (rows (df s)))" and "new \<noteq> []"
    and "\<And>cs r. key (cast cs r) = key r"
  shows "distinct (row_keys key (rows (df (absorbed c infer cast key created new s))))"
    and "set (row_keys key (rows (df (absorbed c infer cast key created new s)))) =
           set (row_keys key (rows (df s))) \<union> set (map key new)"
proof -
  let ?s' = "absorbed c infer cast key created new s"
  let ?K = "row_keys key (rows (df s))"
  have "map_rows key (rows (df ?s')) =
          map_rows key (rows (df s) @ kept_rows ?K key (List.enumerate 0 new))"
    by (rule absorbed_proj [where k = "\<lambda>x. x" and proj = key and key = key and cast = cast,
          OF assms(1,2,3)]) simp
  then have "row_keys (\<lambda>x. x) (map_rows key (rows (df ?s'))) =
               row_keys (\<lambda>x. x) (map_rows key (rows (df s) @ kept_rows ?K key (List.enumerate 0 new)))"
    by simp
  then have k: "row_keys key (rows (df ?s')) =
               ?K @ row_keys key (kept_rows ?K key (List.enumerate 0 new))"
    by (simp add: row_keys_map_rows)
  show "distinct (row_keys key (rows (df ?s')))"
    using assms(1) keys_kept_rows [of key ?K "List.enumerate 0 new"] by (auto simp: k)
  show "set (row_keys key (rows (df ?s'))) = set ?K \<union> set (map key new)"
    using keys_kept_rows [of key ?K "List.enumerate 0 new"] by (auto simp: k)
qed


lemma absorbed_cont:
  assumes "distinct (row_keys key (rows (df s)))" and "new \<noteq> []"
    and "\<And>cs r. key (cast cs r) = key r"
    and "\<not> set (map key new) \<subseteq> set (row_keys key (rows (df s)))"
  shows "cont (absorbed c infer cast key created new s) = cont s"
  using equals_dropped_subset [where cast = cast and infer = infer and c = c and key = key,
      OF assms(1,2,3)] assms(4)
  by (auto simp: absorbed_def)

lemma absorbed_uniform:
  assumes "distinct (row_keys key (rows (df s)))" and "new \<noteq> []"
    and "\<And>cs r. key (cast cs r) = key r"
    and "columns (df s) = None \<or> columns (df s) = Some (infer new)"
  shows "df (absorbed c infer cast key created new s) =
           Frame (Some (infer new))
             (rows (df s) @ kept_rows (row_keys key (rows (df s))) key
                              (map_rows (cast (infer new)) (List.enumerate 0 new)))"
    and "cont (absorbed c infer cast key created new s) =
           (cont s \<and> \<not> set (map key new) \<subseteq> set (row_keys key (rows (df s))))"
proof -
  have g: "grown c infer cast new (df s) =
      Frame (Some (infer new)) (rows (df s) @ map_rows (cast (infer new)) (List.enumerate 0 new))"
    by (rule grown_uniform [where infer = infer and new = new, OF assms(2,4)])
  have r: "rows (drop_duplicates key (grown c infer cast new (df s))) =
      rows (df s) @ kept_rows (row_keys key (rows (df s))) key
                              (map_rows (cast (infer new)) (List.enumerate 0 new))"
    using assms(1) by (simp add: rows_drop_duplicates g kept_rows_append kept_rows_distinct)
  have cl: "columns (drop_duplicates key (grown c infer cast new (df s))) = Some (infer new)"
    by (simp add: drop_duplicates_def select_mask_def g)
  show "df (absorbed c infer cast key created new s) =
           Frame (Some (infer new))
             (rows (df s) @ kept_rows (row_keys key (rows (df s))) key
                              (map_rows (cast (infer new)) (List.enumerate 0 new)))"
    using r cl by (cases "drop_duplicates key (grown c infer cast new (df s))")
                  (simp add: absorbed_def)
  show "cont (absorbed c infer cast key created new s) =
           (cont s \<and> \<not> set (map key new) \<subseteq> set (row_keys key (rows (df s))))"
    using equals_dropped_iff [where cast = cast and infer = infer and c = c and key = key
        and new = new, OF assms(1,2,3,4)]
    by (simp add: absorbed_def)
qed

lemma two_requests:
  assumes s: "cont s" "distinct (row_keys key (rows (df s)))" "itr s + 2 < 495"
    and cast: "\<And>cs r. key (cast cs r) = key r"
    and nd: "\<not> deadline_exceeded c st w" "\<not> deadline_exceeded c st (read_clock w)"
    and first: "fetch (requests w) (date_start s) = P" "P \<noteq> []"
      "\<not> set (map key P) \<subseteq> set (row_keys key (rows (df s)))"
      "columns (df s) = None \<or> columns (df s) = Some (infer P)"
    and second: "fetch (Suc (requests w)) (Some (created (last P))) = Q"
      "set (map key Q) \<subseteq> set (row_keys key (rows (df s))) \<union> set (map key P)"
      "Q = [] \<or> infer Q = infer P"
  shows "\<exists>s'' w''. while_cont (fetch_step c st fetch ev infer cast key created) s w = Some (Inr s'', w'')
           \<and> df s'' = df (absorbed c infer cast key created P s)
           \<and> itr s'' = itr s + (if Q = [] then 1 else 2)
           \<and> clock_reads w'' = clock_reads w + 2
           \<and> requests w'' = requests w + 2
           \<and> trace w'' = trace w @ [ev (date_start s) P, ev (Some (created (last P))) Q]"
proof -
  let ?body = "fetch_step c st fetch ev infer cast key created"
  let ?s1 = "absorbed c infer cast key created P s"
  let ?w1 = "send_request (ev (date_start s) P) (read_clock w)"
  have step1: "?body s w = (Continue ?s1, ?w1)"
    using fetch_step_records [where fetch = fetch and s = s and w = w and ev = ev
        and created = created and infer = infer and cast = cast and key = key,
        OF nd(1) first(1,2)] s(3) by simp
  have d1: "distinct (row_keys key (rows (df ?s1)))"
    by (rule absorbed_keys(1) [where cast = cast and key = key, OF s(2) first(2) cast])
  have keys1: "set (row_keys key (rows (df ?s1))) = set (row_keys key (rows (df s))) \<union> set (map key P)"
    by (rule absorbed_keys(2) [where cast = cast and key = key, OF s(2) first(2) cast])
  have c1: "cont ?s1"
    using absorbed_cont [where cast = cast and key = key and infer = infer and c = c
        and created = created, OF s(2) first(2) cast first(3)] s(1) by simp
  have df1: "columns (df ?s1) = Some (infer P)"
    using absorbed_uniform(1) [where cast = cast and key = key and infer = infer and c = c
        and created = created, OF s(2) first(2) cast first(4)] by simp
  have s1: "date_start ?s1 = Some (created (last P))" "itr ?s1 = itr s + 1"
    using s(3) by simp_all
  have nd1: "\<not> deadline_exceeded c st ?w1"
    using nd(2) deadline_exceeded_cong [of ?w1 "read_clock w" c st] by (simp add: world_defs)
  have req1: "fetch (requests ?w1) (date_start ?s1) = Q"
    using second(1) by (simp add: world_defs)
  have w1: "clock_reads ?w1 = clock_reads w + 1" "requests ?w1 = requests w + 1"
    "trace ?w1 = trace w @ [ev (date_start s) P]"
    by (simp_all add: world_defs)
  have loop1: "while_cont ?body s w = while_cont ?body ?s1 ?w1"
    by (rule while_cont_continue [where body = ?body, OF s(1) step1])
  show ?thesis
  proof (cases "Q = []")
    case True
    let ?s2 = "?s1\<lparr>call_counter := call_counter ?s1 + 1\<rparr>"
    let ?w2 = "send_request (ev (date_start ?s1) []) (read_clock ?w1)"
    have "?body ?s1 ?w1 = (Break ?s2, ?w2)"
      using fetch_step_empty [where fetch = fetch and s = ?s1 and ev = ev and key = key
          and created = created and infer = infer and cast = cast, OF nd1] req1 True by simp
    then have "while_cont ?body ?s1 ?w1 = Some (Inr ?s2, ?w2)"
      by (rule while_cont_break [where body = ?body, OF c1])
    moreover have "clock_reads ?w2 = clock_reads w + 2" "requests ?w2 = requests w + 2"
      "trace ?w2 = trace w @ [ev (date_start s) P, ev (Some (created (last P))) Q]"
      using w1 True by (simp_all add: world_defs)
    moreover have "itr ?s2 = itr s + (if Q = [] then 1 else 2)"
      using True s(3) by simp
    ultimately show ?thesis using loop1 by simp
  next
    case False
    let ?s2 = "absorbed c infer cast key created Q ?s1"
    let ?w2 = "send_request (ev (date_start ?s1) Q) (read_clock ?w1)"
    have sub: "set (map key Q) \<subseteq> set (row_keys key (rows (df ?s1)))"
      using second(2) keys1 by simp
    have uni: "columns (df ?s1) = None \<or> columns (df ?s1) = Some (infer Q)"
      using df1 second(3) False by simp
    have "?body ?s1 ?w1 = (Continue ?s2, ?w2)"
      using fetch_step_records [where fetch = fetch and s = ?s1 and w = ?w1 and ev = ev
          and created = created and infer = infer and cast = cast and key = key,
          OF nd1 req1 False] s(3) by simp
    then have "while_cont ?body ?s1 ?w1 = while_cont ?body ?s2 ?w2"
      by (rule while_cont_continue [where body = ?body, OF c1])
    moreover have "\<not> cont ?s2"
      using absorbed_uniform(2) [where cast = cast and key = key and infer = infer and c = c
          and created = created, OF d1 False cast uni] sub by simp
    then have "while_cont ?body ?s2 ?w2 = Some (Inr ?s2, ?w2)"
      by (rule while_cont_done)
    moreover have "df ?s2 = df ?s1"
    proof -
      have k: "kept_rows (row_keys key (rows (df ?s1))) key
                 (map_rows (cast (infer Q)) (List.enumerate 0 Q)) = []"
        by (rule kept_rows_all_dropped) (use sub in \<open>simp add: row_keys_map_rows cast\<close>)
      have "df ?s2 = Frame (Some (infer Q)) (rows (df ?s1))"
        using absorbed_uniform(1) [where cast = cast and key = key and infer = infer and c = c
          and created = created, OF d1 False cast uni] by (simp add: k)
      also have "\<dots> = df ?s1"
        using df1 second(3) False by (cases "df ?s1") simp
      finally show ?thesis .
    qed
    moreover have "clock_reads ?w2 = clock_reads w + 2" "requests ?w2 = requests w + 2"
      "trace ?w2 = trace w @ [ev (date_start s) P, ev (Some (created (last P))) Q]"
      using w1 by (simp_all add: world_defs)
    moreover have "itr ?s2 = itr s + (if Q = [] then 1 else 2)"
      using False s(3) by simp
    ultimately show ?thesis using loop1 by simp
  qed
qed

section \<open>Runs of two requests\<close>

lemma initial_state_simps [simp]:
  "df (initial_state ds) = empty_frame" "date_start (initial_state ds) = ds"
  "cont (initial_state ds)" "itr (initial_state ds) = 0" "call_counter (initial_state ds) = 1"
  by (simp_all add: initial_state_def)

lemma empty_frame_simps [simp]: "columns empty_frame = None" "rows empty_frame = []"
  by (simp_all add: empty_frame_def)

lemma bulk_get_pages_loop:
  "bulk_get_pages c ds de dl pl st w =
     (case while_cont (pages_body c (datetime_now c (clock_reads w)) de) (initial_state ds) (read_clock w) of
        None \<Rightarrow> None
      | Some (Inl e, w') \<Rightarrow> Some (Inl e, w')
      | Some (Inr s, w') \<Rightarrow> Some (pages_filters (df s) dl pl st, w'))"
  by (simp add: bulk_get_pages_def Let_def initial_state_def)

lemma world_eqI:
  "clock_reads a = clock_reads b \<Longrightarrow> requests a = requests b \<Longrightarrow> trace a = trace b \<Longrightarrow> a = (b :: world)"
  by simp

lemma pg_id_cast_page [simp]:
  "pg_id (cast_page c cs p) = pg_id p" "pg_createdAt (cast_page c cs p) = pg_createdAt p"
  "pg_domain (cast_page c cs p) = pg_domain p" "pg_state (cast_page c cs p) = pg_state p"
  "page_fields (cast_page c cs p) = page_fields p"
  by (simp_all add: cast_page_def page_fields_def)

lemma lead_key_cast_lead [simp]:
  "lead_key (cast_lead c cs l) = lead_key l" "lead_fields (cast_lead c cs l) = lead_fields l"
  "ld_created_at (cast_lead c cs l) = ld_created_at l"
  by (simp_all add: cast_lead_def lead_key_def lead_fields_def)

lemma bulk_get_pages_two_requests:
  assumes nd: "\<not> deadline_exceeded c (datetime_now c (clock_reads w)) (read_clock w)"
      "\<not> deadline_exceeded c (datetime_now c (clock_reads w)) (read_clock (read_clock w))"
    and first: "get_pages c (requests w) ds de = P" "P \<noteq> []"
    and second: "get_pages c (Suc (requests w)) (Some (pg_createdAt (last P))) de = Q"
      "set (map pg_id Q) \<subseteq> set (map pg_id P)"
      "Q = [] \<or> pages_columns c Q = pages_columns c P"
  shows "bulk_get_pages c ds de dl pl st w =
           Some (pages_filters
                   (Frame (Some (pages_columns c P))
                      (kept_rows [] pg_id
                         (map_rows (cast_page c (pages_columns c P)) (List.enumerate 0 P))))
                   dl pl st,
                 w\<lparr>clock_reads := clock_reads w + 3, requests := requests w + 2,
                   trace := trace w @ [PagesRequest ds de P,
                                       PagesRequest (Some (pg_createdAt (last P))) de Q]\<rparr>)"
proof -
  let ?st = "datetime_now c (clock_reads w)"
  let ?s = "initial_state ds :: page loop_state"
  let ?fetch = "\<lambda>n ds. get_pages c n ds de"
  let ?ev = "\<lambda>ds ps. PagesRequest ds de ps"
  have "\<exists>s'' w''. while_cont (fetch_step c ?st ?fetch ?ev (pages_columns c) (cast_page c)
                       pg_id pg_createdAt) ?s (read_clock w)
            = Some (Inr s'', w'')
          \<and> df s'' = df (absorbed c (pages_columns c) (cast_page c) pg_id pg_createdAt P ?s)
          \<and> itr s'' = itr ?s + (if Q = [] then 1 else 2)
          \<and> clock_reads w'' = clock_reads (read_clock w) + 2
          \<and> requests w'' = requests (read_clock w) + 2
          \<and> trace w'' = trace (read_clock w) @ [?ev (date_start ?s) P, ?ev (Some (pg_createdAt (last P))) Q]"
  proof (rule two_requests [where fetch = ?fetch and Q = Q and infer = "pages_columns c"
        and cast = "cast_page c" and key = pg_id])
    show "?fetch (requests (read_clock w)) (date_start ?s) = P"
      using first(1) by (simp add: world_defs)
    show "?fetch (Suc (requests (read_clock w))) (Some (pg_createdAt (last P))) = Q"
      using second(1) by (simp add: world_defs)
    show "\<not> set (map pg_id P) \<subseteq> set (row_keys pg_id (rows (df ?s)))"
      using first(2) by simp
    show "set (map pg_id Q) \<subseteq> set (row_keys pg_id (rows (df ?s))) \<union> set (map pg_id P)"
      using second(2) by auto
    show "Q = [] \<or> pages_columns c Q = pages_columns c P" by (rule second(3))
  qed (use nd first(2) in simp_all)
  then obtain s'' w'' where
    run: "while_cont (pages_body c ?st de) ?s (read_clock w) = Some (Inr s'', w'')"
    and r: "df s'' = df (absorbed c (pages_columns c) (cast_page c) pg_id pg_createdAt P ?s)"
    and w: "clock_reads w'' = clock_reads (read_clock w) + 2"
      "requests w'' = requests (read_clock w) + 2"
      "trace w'' = trace (read_clock w) @ [?ev (date_start ?s) P, ?ev (Some (pg_createdAt (last P))) Q]"
    unfolding pages_body_fetch_step by blast
  have "df s'' = Frame (Some (pages_columns c P))
                      (kept_rows [] pg_id
                         (map_rows (cast_page c (pages_columns c P)) (List.enumerate 0 P)))"
    unfolding r
    using absorbed_uniform(1) [where s = ?s and key = pg_id and cast = "cast_page c"
        and infer = "pages_columns c" and new = P and c = c and created = pg_createdAt] first(2)
    by simp
  moreover have "w'' = w\<lparr>clock_reads := clock_reads w + 3, requests := requests w + 2,
      trace := trace w @ [PagesRequest ds de P, PagesRequest (Some (pg_createdAt (last P))) de Q]\<rparr>"
    using w by (intro world_eqI) (simp_all add: world_defs)
  ultimately show ?thesis
    using run by (simp add: bulk_get_pages_loop)
qed

lemma pages_filters_none: "pages_filters d None None None = Inr (map rename_page (to_dict d))"
  by (simp add: pages_filters_def truthy_def rename_df_def to_dict_def comp_def split_def)

text \<open>The example instance of pandas leaves records without other fields as they are.\<close>

lemma demo_rest_columns_Nil [simp]: "demo_rest_columns (map (\<lambda>r. []) rs) = []"
  by (simp add: demo_rest_columns_def first_names_def)

lemma demo_cast_plain:
  "pg_rest p = [] \<Longrightarrow> cast_page demo_conn (demo_pages_columns (map demo_page ids)) p = p"
  "ld_rest l = [] \<Longrightarrow> cast_lead demo_conn (demo_leads_columns (map demo_lead ids)) l = l"
  by (simp_all add: cast_page_def cast_lead_def demo_conn_def demo_astype_def
      demo_pages_columns_def demo_leads_columns_def demo_page_def demo_lead_def comp_def)

lemma demo_conn_simps [simp]:
  "extract_timeout_time demo_conn = 3600"
  "get_pages demo_conn n ds de = [demo_page ''a'']"
  "get_page_leads demo_conn n (PStr p) ds de = [demo_lead p]"
  "datetime_now demo_conn k = 0"
  "strptime demo_conn = demo_strptime"
  "pages_columns demo_conn = demo_pages_columns"
  "leads_columns demo_conn = demo_leads_columns"
  "concat_columns demo_conn = demo_concat_columns"
  "astype demo_conn = demo_astype"
  by (simp_all add: demo_conn_def)

lemma demo_conn_in_time [simp]: "\<not> deadline_exceeded demo_conn 0 w"
  by (simp add: deadline_exceeded_def timedelta_seconds_def)

lemma slow_conn_simps [simp]:
  "extract_timeout_time slow_conn = 90000"
  "get_pages slow_conn n ds de = [demo_page ''a'']"
  "datetime_now slow_conn k = (if k < 2 then 0 else 90001000000)"
  "pages_columns slow_conn = demo_pages_columns"
  "astype slow_conn = demo_astype"
  by (simp_all add: slow_conn_def)

section \<open>Filter processing\<close>

lemma optional_date_malformed:
  "malformed_date c v \<Longrightarrow> optional_date c v = Inl ValueError"
  by (auto simp: malformed_date_def optional_date_def try_date_def date_of_def
      split: option.splits pyval.splits)

lemma optional_date_cases:
  "optional_date c v = Inl ValueError \<or>
   (v = None \<and> optional_date c v = Inr None) \<or>
   (\<exists>s d. v = Some (PStr s) \<and> date_of c (PStr s) = Some d \<and>
      optional_date c v = Inr (Some (s @ ''T00:00:00.000Z'', d)))"
  by (auto simp: optional_date_def try_date_def date_of_def split: option.splits pyval.splits)

lemma optional_range_invalid:
  assumes "invalid_date_range c v"
  shows "\<exists>e. optional_range c v = Inl e \<and> validation_error e"
proof (cases v)
  case None
  with assms show ?thesis by (simp add: invalid_date_range_def)
next
  case (Some x)
  show ?thesis
  proof (cases x)
    case (PDict d)
    let ?a = "map_of d ''date_start''" and ?b = "map_of d ''date_end''"
    consider (key) "\<exists>key \<in> set (map fst d). key \<noteq> ''date_start'' \<and> key \<noteq> ''date_end''"
      | (start) "malformed_date c ?a" | (ending) "malformed_date c ?b"
      | (range) "empty_or_inverted c ?a ?b"
      using assms Some PDict by (auto simp: invalid_date_range_def)
    then have "\<exists>e. process_date_range c (PDict d) = Inl e \<and> validation_error e"
    proof cases
      case key
      then show ?thesis
        by (auto simp: process_date_range_def ACCEPTABLE_DATE_RANGE_KEYS_def validation_error_def)
    next
      case start
      then show ?thesis
        by (simp add: process_date_range_def optional_date_malformed validation_error_def)
    next
      case ending
      then show ?thesis
        using optional_date_cases [of c ?a]
        by (auto simp: process_date_range_def optional_date_malformed validation_error_def)
    next
      case range
      then obtain x y d1 d2 where xy: "?a = Some x" "?b = Some y"
        and dd: "date_of c x = Some d1" "date_of c y = Some d2" "d2 \<le> d1"
        by (auto simp: empty_or_inverted_def split: option.splits)
      from dd(1) obtain s1 where x: "x = PStr s1"
        by (cases x) (simp_all add: date_of_def)
      from dd(2) obtain s2 where y: "y = PStr s2"
        by (cases y) (simp_all add: date_of_def)
      have "optional_date c ?a = Inr (Some (s1 @ ''T00:00:00.000Z'', d1))"
        "optional_date c ?b = Inr (Some (s2 @ ''T00:00:00.000Z'', d2))"
        using xy dd x y by (simp_all add: optional_date_def try_date_def date_of_def)
      then show ?thesis
        using dd(3) by (auto simp: process_date_range_def validation_error_def)
    qed
    then show ?thesis by (simp add: optional_range_def Some PDict)
  qed (simp_all add: optional_range_def process_date_range_def Some validation_error_def)
qed

lemma optional_list_wrong_type: "wrong_type v \<Longrightarrow> optional_list v = Inl TypeError"
  by (auto simp: wrong_type_def optional_list_def str_or_list_def split: option.splits pyval.splits)

lemma optional_state_invalid: "invalid_state v \<Longrightarrow> optional_state v = Inl ValueError"
  by (auto simp: invalid_state_def optional_state_def ACCEPTABLE_STATE_TYPES_def
      split: option.splits pyval.splits)

lemma optional_list_error: "optional_list v = Inl e \<Longrightarrow> validation_error e"
  by (auto simp: optional_list_def str_or_list_def validation_error_def split: option.splits pyval.splits)

lemma optional_range_error: "optional_range c v = Inl e \<Longrightarrow> validation_error e"
  by (auto simp: optional_range_def process_date_range_def optional_date_def try_date_def
      validation_error_def split: option.splits pyval.splits sum.splits if_splits)

lemma optional_state_error: "optional_state v = Inl e \<Longrightarrow> validation_error e"
  by (auto simp: optional_state_def validation_error_def split: option.splits pyval.splits if_splits)

lemma page_filter_args_error: "page_filter_args c filters = Inl e \<Longrightarrow> validation_error e"
  by (auto simp: page_filter_args_def validation_error_def [of ValueError] validation_error_def [of TypeError]
      dest: optional_list_error optional_range_error optional_state_error
      split: pyval.splits sum.splits if_splits)

lemma lead_filter_args_error: "lead_filter_args c filters = Inl e \<Longrightarrow> validation_error e"
  by (auto simp: lead_filter_args_def validation_error_def [of ValueError] validation_error_def [of TypeError]
      dest: optional_list_error optional_range_error
      split: pyval.splits sum.splits if_splits)

lemma page_filter_args_invalid:
  assumes "invalid_filters c ''pages'' filters"
  shows "\<exists>e. page_filter_args c filters = Inl e"
proof (cases filters)
  case (PDict f)
  consider (key) "\<exists>key \<in> set (map fst f). key \<notin> {''created_at'', ''domain'', ''page_id'', ''state''}"
    | (dates) "invalid_date_range c (map_of f ''created_at'')"
    | (domain) "wrong_type (map_of f ''domain'')"
    | (page_id) "wrong_type (map_of f ''page_id'')"
    | (state) "invalid_state (map_of f ''state'')"
    using assms PDict by (auto simp: invalid_filters_def)
  then show ?thesis
  proof cases
    case key
    then show ?thesis by (auto simp: page_filter_args_def PDict PAGE_FILTER_TYPES_def)
  next
    case dates
    then show ?thesis
      using optional_range_invalid [OF dates]
      by (auto simp: page_filter_args_def PDict)
  next
    case domain
    then show ?thesis
      by (auto simp: page_filter_args_def PDict optional_list_wrong_type split: sum.splits)
  next
    case page_id
    then show ?thesis
      by (auto simp: page_filter_args_def PDict optional_list_wrong_type split: sum.splits)
  next
    case state
    then show ?thesis
      by (auto simp: page_filter_args_def PDict optional_state_invalid split: sum.splits)
  qed
qed (simp_all add: page_filter_args_def)

lemma lead_filter_args_invalid:
  assumes "invalid_filters c ''leads'' filters"
  shows "\<exists>e. lead_filter_args c filters = Inl e"
proof (cases filters)
  case (PDict f)
  consider (key) "\<exists>key \<in> set (map fst f). key \<notin> {''created_at'', ''lead_id'', ''page_id''}"
    | (dates) "invalid_date_range c (map_of f ''created_at'')"
    | (lead_id) "wrong_type (map_of f ''lead_id'')"
    | (page_id) "wrong_type (map_of f ''page_id'')"
    using assms PDict by (auto simp: invalid_filters_def)
  then show ?thesis
  proof cases
    case key
    then show ?thesis by (auto simp: lead_filter_args_def PDict LEAD_FILTER_TYPES_def)
  next
    case dates
    then show ?thesis
      using optional_range_invalid [OF dates]
      by (auto simp: lead_filter_args_def PDict)
  next
    case lead_id
    then show ?thesis
      by (auto simp: lead_filter_args_def PDict optional_list_wrong_type split: sum.splits)
  next
    case page_id
    then show ?thesis
      by (auto simp: lead_filter_args_def PDict optional_list_wrong_type split: sum.splits)
  qed
qed (simp_all add: lead_filter_args_def)

section \<open>First-seen records\<close>

lemma first_seen_Nil [simp]: "first_seen key [] = []"
  by (simp add: first_seen_def)




section \<open>What the loops keep\<close>






text \<open>The rule for \<open>while cont\<close>: what every pass keeps holds when the loop is left.\<close>

lemma while_cont_rule:
  assumes run: "while_cont body s w = Some r" and start: "I s w"
    and pass: "\<And>s w. I s w \<Longrightarrow> cont s \<Longrightarrow>
        (case body s w of
           (Raise e, w') \<Rightarrow> Q (Inl e, w')
         | (Break s', w') \<Rightarrow> Q (Inr s', w')
         | (Continue s', w') \<Rightarrow> I s' w')"
    and leave: "\<And>s w. I s w \<Longrightarrow> \<not> cont s \<Longrightarrow> Q (Inr s, w)"
  shows "Q r"
proof -
  have "b = body \<longrightarrow> I s w \<longrightarrow> Q r" if run': "while_cont b s w = Some r" for b s w r
  proof (rule while_cont.raw_induct
      [where P = "\<lambda>b s w r. b = body \<longrightarrow> I s w \<longrightarrow> Q r", OF _ run'], goal_cases)
    case (1 loop b s w r)
    show ?case
    proof (intro impI)
      assume b: "b = body" and i: "I s w"
      show "Q r"
      proof (cases "cont s")
        case False
        with 1(2) have "r = (Inr s, w)" by simp
        with leave [OF i False] show ?thesis by simp
      next
        case True
        note p = pass [OF i True]
        obtain fl w' where f: "body s w = (fl, w')" by (cases "body s w")
        show ?thesis
        proof (cases fl)
          case (Raise e)
          with 1(2) True f b have "r = (Inl e, w')" by simp
          with p f Raise show ?thesis by simp
        next
          case (Break s')
          with 1(2) True f b have "r = (Inr s', w')" by simp
          with p f Break show ?thesis by simp
        next
          case (Continue s')
          with 1(2) True f b have "loop b s' w' = Some r" by simp
          moreover from p f Continue have "I s' w'" by simp
          ultimately show ?thesis using 1(1) b by blast
        qed
      qed
    qed
  qed
  with run start show ?thesis by blast
qed



lemma accumulated_read_clock:
  "accumulated proj key resp tr0 s w \<Longrightarrow> accumulated proj key resp tr0 s (read_clock w)"
  by (simp add: accumulated_def read_clock_def)
















lemma received_pages_read_clock [simp]: "received_pages (read_clock w) w' = received_pages w w'"
  by (simp add: received_pages_def read_clock_def)

lemma received_leads_read_clock [simp]: "received_leads (read_clock w) w' = received_leads w w'"
  by (simp add: received_leads_def read_clock_def)



section \<open>The request counter\<close>

lemma governor_append:
  "governor n (es @ es') = (\<Union>m \<in> governor n es. governor m es')"
  by (induction n es rule: governor.induct) auto

lemma governed_iff:
  "governed K tr0 n0 m w \<longleftrightarrow>
     (\<exists>es. trace w = tr0 @ es \<and> list_all K es \<and> m \<in> governor n0 es) \<and> m < 495"
proof -
  have "take (length tr0) (trace w) = tr0 \<longleftrightarrow> (\<exists>es. trace w = tr0 @ es)"
    by (metis append_eq_conv_conj)
  then show ?thesis
    by (auto simp: governed_def)
qed

lemma governed_start: "governed K (trace w) 0 0 w"
  by (simp add: governed_def)

lemma governed_extend:
  assumes "governed K tr0 n0 m w" and "trace w' = trace w @ es" and "list_all K es"
    and "m' \<in> governor m es" and "m' < 495"
  shows "governed K tr0 n0 m' w'"
proof -
  from assms(1) obtain es0 where "trace w = tr0 @ es0" "list_all K es0" "m \<in> governor n0 es0"
    by (auto simp: governed_iff)
  then have "trace w' = tr0 @ (es0 @ es)" "list_all K (es0 @ es)" "m' \<in> governor n0 (es0 @ es)"
    using assms(2-4) by (auto simp: governor_append)
  then show ?thesis
    unfolding governed_iff using assms(5) by blast
qed

lemma fetch_step_counting:
  assumes "fetch_step c st fetch ev infer cast key created s w = (fl, w')"
  shows "case fl of
           Raise e \<Rightarrow> trace w' = trace w
         | Break s' \<Rightarrow> itr s' = itr s \<and> trace w' = trace w @ [ev (date_start s) []]
         | Continue s' \<Rightarrow>
             (\<exists>new. new \<noteq> [] \<and> itr s' = (if itr s + 1 = 495 then 0 else itr s + 1) \<and>
                trace w' = trace w @ ev (date_start s) new # (if itr s + 1 = 495 then [Sleep 60] else []))"
  using assms
  by (auto simp: fetch_step_def Let_def count_request_def world_defs split: if_splits)

lemma fetch_step_governed:
  assumes g: "governed K tr0 n0 (itr s) w"
    and K: "\<And>ds new. K (ev ds new)" "K (Sleep 60)"
    and ev: "\<And>n ds new es. governor n (ev ds new # es) =
        (if n = 495 then {} else governor (n + 1) es \<union> (if new = [] then governor n es else {}))"
    and step: "fetch_step c st fetch ev infer cast key created s w = (fl, w')"
  shows "case fl of
           Raise e \<Rightarrow> governed K tr0 n0 (itr s) w'
         | Break s' \<Rightarrow> governed K tr0 n0 (itr s') w'
         | Continue s' \<Rightarrow> governed K tr0 n0 (itr s') w'"
proof -
  have lt: "itr s < 495" using g by (simp add: governed_def)
  note cnt = fetch_step_counting [OF step]
  show ?thesis
  proof (cases fl)
    case (Raise e)
    with cnt have "trace w' = trace w @ []" by simp
    then have "governed K tr0 n0 (itr s) w'"
      by (rule governed_extend [OF g]) (simp_all add: lt)
    with Raise show ?thesis by simp
  next
    case (Break s')
    with cnt have i: "itr s' = itr s" and t: "trace w' = trace w @ [ev (date_start s) []]" by simp_all
    have "governed K tr0 n0 (itr s) w'"
      by (rule governed_extend [OF g t]) (use K lt in \<open>simp_all add: ev\<close>)
    with Break i show ?thesis by simp
  next
    case (Continue s')
    with cnt obtain new where new: "new \<noteq> []"
      and i: "itr s' = (if itr s + 1 = 495 then 0 else itr s + 1)"
      and t: "trace w' = trace w @ ev (date_start s) new # (if itr s + 1 = 495 then [Sleep 60] else [])"
      by auto
    have "governed K tr0 n0 (itr s') w'"
      by (rule governed_extend [OF g t]) (use K lt new i in \<open>auto simp: ev\<close>)
    with Continue show ?thesis by simp
  qed
qed

lemma while_fetch_governed:
  assumes run: "while_cont (fetch_step c st fetch ev infer cast key created) s w = Some (r, w')"
    and g: "governed K tr0 n0 (itr s) w"
    and K: "\<And>ds new. K (ev ds new)" "K (Sleep 60)"
    and ev: "\<And>n ds new es. governor n (ev ds new # es) =
        (if n = 495 then {} else governor (n + 1) es \<union> (if new = [] then governor n es else {}))"
  shows "case r of Inl e \<Rightarrow> (\<exists>m. governed K tr0 n0 m w') | Inr s' \<Rightarrow> governed K tr0 n0 (itr s') w'"
proof -
  define Q :: "(error + 'a loop_state) \<times> world \<Rightarrow> bool" where
    "Q = (\<lambda>(r, w'). case r of Inl e \<Rightarrow> (\<exists>m. governed K tr0 n0 m w')
                        | Inr s' \<Rightarrow> governed K tr0 n0 (itr s') w')"
  have "Q (r, w')"
  proof (rule while_cont_rule [where I = "\<lambda>s w. governed K tr0 n0 (itr s) w", OF run g])
    fix s :: "'a loop_state" and w
    assume a: "governed K tr0 n0 (itr s) w"
    obtain fl w1 where f: "fetch_step c st fetch ev infer cast key created s w = (fl, w1)"
      by (cases "fetch_step c st fetch ev infer cast key created s w")
    show "case fetch_step c st fetch ev infer cast key created s w of
            (Raise e, w') \<Rightarrow> Q (Inl e, w')
          | (Break s', w') \<Rightarrow> Q (Inr s', w')
          | (Continue s', w') \<Rightarrow> governed K tr0 n0 (itr s') w'"
      using fetch_step_governed [where ev = ev and K = K, OF a K ev f]
      by (cases fl) (auto simp: f Q_def)
  qed (simp add: Q_def)
  then show ?thesis by (simp add: Q_def)
qed

lemma pages_loop_governed:
  assumes "while_cont (pages_body c st de) s w = Some (r, w')"
    and "governed (\<lambda>e. \<not> is_leads_request e) tr0 n0 (itr s) w"
  shows "case r of Inl e \<Rightarrow> (\<exists>m. governed (\<lambda>e. \<not> is_leads_request e) tr0 n0 m w')
                 | Inr s' \<Rightarrow> governed (\<lambda>e. \<not> is_leads_request e) tr0 n0 (itr s') w'"
proof (rule while_fetch_governed [where ev = "\<lambda>ds ps. PagesRequest ds de ps"
      and fetch = "\<lambda>n ds. get_pages c n ds de" and key = pg_id and created = pg_createdAt
      and infer = "pages_columns c" and cast = "cast_page c" and c = c and st = st,
      OF _ assms(2)])
  show "while_cont (fetch_step c st (\<lambda>n ds. get_pages c n ds de) (\<lambda>ds ps. PagesRequest ds de ps)
      (pages_columns c) (cast_page c) pg_id pg_createdAt) s w = Some (r, w')"
    using assms(1) by (simp add: pages_body_fetch_step)
qed simp_all

lemma leads_loop_governed:
  assumes "while_cont (leads_body c st de page_id) s w = Some (r, w')"
    and "governed (\<lambda>e. \<not> is_pages_request e) tr0 n0 (itr s) w"
  shows "case r of Inl e \<Rightarrow> (\<exists>m. governed (\<lambda>e. \<not> is_pages_request e) tr0 n0 m w')
                 | Inr s' \<Rightarrow> governed (\<lambda>e. \<not> is_pages_request e) tr0 n0 (itr s') w'"
proof (rule while_fetch_governed [where ev = "\<lambda>ds ls. LeadsRequest page_id ds de ls"
      and fetch = "\<lambda>n ds. get_page_leads c n page_id ds de" and key = lead_key
      and created = ld_created_at and infer = "leads_columns c" and cast = "cast_lead c"
      and c = c and st = st, OF _ assms(2)])
  show "while_cont (fetch_step c st (\<lambda>n ds. get_page_leads c n page_id ds de)
      (\<lambda>ds ls. LeadsRequest page_id ds de ls) (leads_columns c) (cast_lead c)
      lead_key ld_created_at) s w = Some (r, w')"
    using assms(1) by (simp add: leads_body_fetch_step)
qed simp_all

lemma leads_for_governed:
  "leads_for c st og de ids s w = Some (r, w') \<Longrightarrow>
   governed (\<lambda>e. \<not> is_pages_request e) tr0 n0 (itr s) w \<Longrightarrow>
   (case r of Inl e \<Rightarrow> (\<exists>m. governed (\<lambda>e. \<not> is_pages_request e) tr0 n0 m w')
            | Inr s' \<Rightarrow> governed (\<lambda>e. \<not> is_pages_request e) tr0 n0 (itr s') w')"
proof (induction ids arbitrary: s w)
  case Nil
  then show ?case by auto
next
  case (Cons page_id ids)
  let ?s = "s\<lparr>cont := True, date_start := og, call_counter := 1\<rparr>"
  from Cons.prems(1) obtain r1 w1 where
    1: "while_cont (leads_body c st de page_id) ?s w = Some (r1, w1)"
    by (auto split: option.splits)
  have g: "governed (\<lambda>e. \<not> is_pages_request e) tr0 n0 (itr ?s) w"
    using Cons.prems(2) by simp
  note step = leads_loop_governed [OF 1 g]
  show ?case
  proof (cases r1)
    case (Inl e)
    with Cons.prems(1) 1 have "r = Inl e" "w' = w1" by simp_all
    with step Inl show ?thesis by simp
  next
    case (Inr s1)
    with Cons.prems(1) 1 have 2: "leads_for c st og de ids s1 w1 = Some (r, w')" by simp
    from step Inr have "governed (\<lambda>e. \<not> is_pages_request e) tr0 n0 (itr s1) w1" by simp
    then show ?thesis by (rule Cons.IH [OF 2])
  qed
qed

lemma governed_read_clock:
  "governed K tr0 n0 m (read_clock w) = governed K tr0 n0 m w"
  by (simp add: governed_def read_clock_def)

lemma bulk_get_pages_governed:
  assumes "bulk_get_pages c ds de domain_list page_id_list st w = Some (r, w')"
  shows "\<exists>m. governed (\<lambda>e. \<not> is_leads_request e) (trace w) 0 m w'"
proof -
  let ?K = "\<lambda>e. \<not> is_leads_request e"
  from assms obtain r1 where
    run: "while_cont (pages_body c (datetime_now c (clock_reads w)) de) (initial_state ds) (read_clock w)
       = Some (r1, w')"
    by (auto simp: bulk_get_pages_loop split: option.splits sum.splits)
  have "governed ?K (trace w) 0 (itr (initial_state ds :: page loop_state)) (read_clock w)"
    by (simp add: governed_read_clock governed_start)
  from pages_loop_governed [OF run this] show ?thesis
    by (cases r1) auto
qed

lemma resolve_page_ids_governed:
  assumes "resolve_page_ids c de page_id_list w = Some (r, w')"
  shows "\<exists>m. governed (\<lambda>e. \<not> is_leads_request e) (trace w) 0 m w'"
proof (cases "truthy page_id_list")
  case True
  with assms have "w' = w" by (simp add: resolve_page_ids_def)
  then show ?thesis using governed_start by blast
next
  case False
  with assms obtain r1 where "bulk_get_pages c None de None None None w = Some (r1, w')"
    by (auto simp: resolve_page_ids_def split: option.splits sum.splits)
  then show ?thesis by (rule bulk_get_pages_governed)
qed

lemma bulk_get_leads_cases:
  assumes "bulk_get_leads c ds de lead_id_list page_id_list w = Some (r, w')"
  obtains (stopped) r1 where "resolve_page_ids c de page_id_list (read_clock w) = Some (r1, w')"
  | (fanned) page_ids_all w1 r2 where
      "resolve_page_ids c de page_id_list (read_clock w) = Some (Inr page_ids_all, w1)"
      "leads_for c (datetime_now c (clock_reads w)) ds de (iterate page_ids_all) (initial_state ds) w1
         = Some (r2, w')"
  using assms
  by (auto simp: bulk_get_leads_def Let_def initial_state_def
      split: option.splits sum.splits bool.splits)

section \<open>Runs of the fan-out\<close>

lemma lead_key_demo_lead [simp]: "lead_key (demo_lead p) = lead_key (demo_lead q) \<longleftrightarrow> p = q"
  by (simp add: lead_key_def demo_lead_def)

lemma map_snd_enumerate [simp]: "map snd (List.enumerate n xs) = xs"
  by (induction xs arbitrary: n) simp_all

lemma enumerate_Nil_iff [simp]: "List.enumerate n xs = [] \<longleftrightarrow> xs = []"
  by (cases xs) simp_all

lemma map_of_snd_enumerate: "map (\<lambda>x. f (snd x)) (List.enumerate n xs) = map f xs"
  by (induction xs arbitrary: n) simp_all

lemma map_rows_enumerate_id:
  "(\<And>r. r \<in> set xs \<Longrightarrow> f r = r) \<Longrightarrow> map_rows f (List.enumerate n xs) = List.enumerate n xs"
  by (induction xs arbitrary: n) simp_all

lemma pg_id_demo_page [simp]: "pg_id (demo_page i) = i"
  by (simp add: demo_page_def)

lemma demo_columns [simp]:
  "demo_pages_columns (map demo_page names) =
     [(''id'', Dobject), (''createdAt'', Dobject), (''domain'', Dobject), (''state'', Dobject)]"
  "demo_leads_columns [demo_lead p] =
     [(''created_at'', Dobject), (''id'', Dobject), (''page_id'', Dobject),
      (''variant_id'', Dobject)]"
  by (simp_all add: demo_pages_columns_def demo_leads_columns_def demo_rest_columns_def
      first_names_def demo_page_def demo_lead_def comp_def)

lemma demo_cast [simp]:
  "astype c = demo_astype \<Longrightarrow>
     cast_page c [(''id'', Dobject), (''createdAt'', Dobject), (''domain'', Dobject),
                  (''state'', Dobject)] (demo_page i) = demo_page i"
  "astype c = demo_astype \<Longrightarrow>
     cast_lead c [(''created_at'', Dobject), (''id'', Dobject), (''page_id'', Dobject),
                  (''variant_id'', Dobject)] (demo_lead q) = demo_lead q"
  by (simp_all add: cast_page_def cast_lead_def demo_astype_def demo_page_def demo_lead_def)

lemma leads_for_two_each:
  assumes leads: "\<And>n p ds de. get_page_leads c n (PStr p) ds de = [demo_lead p]"
    and time: "\<And>w. \<not> deadline_exceeded c st w"
    and pandas: "leads_columns c = demo_leads_columns"
  shows "distinct names \<Longrightarrow> distinct (row_keys lead_key (rows (df s))) \<Longrightarrow>
     set (row_keys lead_key (rows (df s))) \<inter> lead_key ` demo_lead ` set names = {} \<Longrightarrow>
     itr s + 2 * length names < 495 \<Longrightarrow>
     columns (df s) = None \<or> columns (df s) = Some (demo_leads_columns [demo_lead []]) \<Longrightarrow>
     \<exists>s' w'. leads_for c st og de (map PStr names) s w = Some (Inr s', w')
       \<and> itr s' = itr s + 2 * length names
       \<and> requests w' = requests w + 2 * length names
       \<and> trace w' = trace w @ concat (map (lead_requests og de) names)"
proof (induction names arbitrary: s w)
  case Nil
  then show ?case by simp
next
  case (Cons p names)
  let ?s0 = "s\<lparr>cont := True, date_start := og, call_counter := 1\<rparr>"
  let ?fetch = "\<lambda>n ds. get_page_leads c n (PStr p) ds de"
  let ?ev = "\<lambda>ds ls. LeadsRequest (PStr p) ds de ls"
  let ?s1 = "absorbed c (leads_columns c) (cast_lead c) lead_key ld_created_at [demo_lead p] ?s0"
  have fresh: "lead_key (demo_lead p) \<notin> set (row_keys lead_key (rows (df s)))"
    using Cons.prems(3) by auto
  have d0: "distinct (row_keys lead_key (rows (df ?s0)))"
    using Cons.prems(2) by simp
  have "\<exists>s'' w''. while_cont (fetch_step c st ?fetch ?ev (leads_columns c) (cast_lead c)
                       lead_key ld_created_at) ?s0 w = Some (Inr s'', w'')
           \<and> df s'' = df ?s1
           \<and> itr s'' = itr ?s0 + (if [demo_lead p] = [] then 1 else 2)
           \<and> clock_reads w'' = clock_reads w + 2
           \<and> requests w'' = requests w + 2
           \<and> trace w'' = trace w @ [?ev (date_start ?s0) [demo_lead p],
                                     ?ev (Some (ld_created_at (last [demo_lead p]))) [demo_lead p]]"
    by (rule two_requests [where fetch = ?fetch and ev = ?ev and P = "[demo_lead p]"
          and Q = "[demo_lead p]" and infer = "leads_columns c" and cast = "cast_lead c"
          and key = lead_key])
       (use Cons.prems(2,4,5) fresh leads time pandas in simp_all)
  then obtain s1 w1 where
    loop: "while_cont (leads_body c st de (PStr p)) ?s0 w = Some (Inr s1, w1)"
    and df1: "df s1 = df ?s1" and i1: "itr s1 = itr s + 2"
    and w1: "requests w1 = requests w + 2"
      "trace w1 = trace w @ lead_requests og de p"
    unfolding leads_body_fetch_step by (auto simp: lead_requests_def)
  have k1: "set (row_keys lead_key (rows (df s1))) =
      insert (lead_key (demo_lead p)) (set (row_keys lead_key (rows (df s))))"
    unfolding df1
    using absorbed_keys(2) [where cast = "cast_lead c" and key = lead_key and s = ?s0
        and new = "[demo_lead p]" and c = c and infer = "leads_columns c"
        and created = ld_created_at, OF d0]
    by simp
  have d1: "distinct (row_keys lead_key (rows (df s1)))"
    unfolding df1
    using absorbed_keys(1) [where cast = "cast_lead c" and key = lead_key and s = ?s0
        and new = "[demo_lead p]" and c = c and infer = "leads_columns c"
        and created = ld_created_at, OF d0]
    by simp
  have c1: "columns (df s1) = None \<or> columns (df s1) = Some (demo_leads_columns [demo_lead []])"
    unfolding df1
    using absorbed_uniform(1) [where cast = "cast_lead c" and key = lead_key and s = ?s0
        and new = "[demo_lead p]" and c = c and infer = "leads_columns c"
        and created = ld_created_at, OF d0] Cons.prems(5)
    by (simp add: pandas)
  have "\<exists>s' w'. leads_for c st og de (map PStr names) s1 w1 = Some (Inr s', w')
       \<and> itr s' = itr s1 + 2 * length names
       \<and> requests w' = requests w1 + 2 * length names
       \<and> trace w' = trace w1 @ concat (map (lead_requests og de) names)"
  proof (rule Cons.IH [OF _ d1 _ _ c1])
    show "distinct names" using Cons.prems(1) by simp
    show "set (row_keys lead_key (rows (df s1))) \<inter> lead_key ` demo_lead ` set names = {}"
      using Cons.prems(1,3) unfolding k1 by auto
    show "itr s1 + 2 * length names < 495"
      using Cons.prems(4) i1 by simp
  qed
  then obtain s' w' where r: "leads_for c st og de (map PStr names) s1 w1 = Some (Inr s', w')"
    "itr s' = itr s1 + 2 * length names"
    "requests w' = requests w1 + 2 * length names"
    "trace w' = trace w1 @ concat (map (lead_requests og de) names)"
    by blast
  have "leads_for c st og de (map PStr (p # names)) s w = Some (Inr s', w')"
    using loop r(1) by simp
  moreover have "itr s' = itr s + 2 * length (p # names)"
    using r(2) i1 by simp
  moreover have "requests w' = requests w + 2 * length (p # names)"
    using r(3) w1 by simp
  moreover have "trace w' = trace w @ concat (map (lead_requests og de) (p # names))"
    using r(4) w1 by simp
  ultimately show ?case by blast
qed

lemma bulk_get_leads_two_each:
  assumes pages: "\<And>n ds de. get_pages c n ds de = map demo_page names"
    and leads: "\<And>n p ds de. get_page_leads c n (PStr p) ds de = [demo_lead p]"
    and clock: "\<And>k. datetime_now c k = 0" "extract_timeout_time c = 3600"
    and pandas: "pages_columns c = demo_pages_columns" "leads_columns c = demo_leads_columns"
      "astype c = demo_astype"
    and names: "names \<noteq> []" "distinct names" "2 * length names < 495"
  shows "\<exists>r w'. bulk_get_leads c ds de lead_id_list None w = Some (r, w')
           \<and> requests w' = requests w + 2 + 2 * length names
           \<and> trace w' = trace w @
                [PagesRequest None de (map demo_page names),
                 PagesRequest (Some (pg_createdAt (last (map demo_page names)))) de (map demo_page names)]
                @ concat (map (lead_requests ds de) names)"
proof -
  let ?P = "map demo_page names"
  let ?w1 = "(read_clock w)\<lparr>clock_reads := clock_reads (read_clock w) + 3,
      requests := requests (read_clock w) + 2,
      trace := trace (read_clock w) @ [PagesRequest None de ?P,
               PagesRequest (Some (pg_createdAt (last ?P))) de ?P]\<rparr>"
  have time: "\<not> deadline_exceeded c 0 v" for v
    using clock by (simp add: deadline_exceeded_def timedelta_seconds_def)
  have ids: "map pg_id ?P = names"
    by (simp add: comp_def)
  have same: "map_rows (cast_page c (pages_columns c ?P)) (List.enumerate 0 ?P) = List.enumerate 0 ?P"
    by (rule map_rows_enumerate_id) (auto simp: pandas)
  have kept: "kept_rows [] pg_id (List.enumerate 0 ?P) = List.enumerate 0 ?P"
    by (rule kept_rows_distinct) (simp_all add: ids names del: map_map)
  have "bulk_get_pages c None de None None None (read_clock w) =
      Some (pages_filters
              (Frame (Some (pages_columns c ?P))
                 (kept_rows [] pg_id (map_rows (cast_page c (pages_columns c ?P)) (List.enumerate 0 ?P))))
              None None None, ?w1)"
    by (rule bulk_get_pages_two_requests) (use pages names(1) time clock in simp_all)
  then have lookup: "bulk_get_pages c None de None None None (read_clock w) =
      Some (Inr (map rename_page ?P), ?w1)"
    by (simp add: same kept pages_filters_none to_dict_def)
  let ?col = "List.enumerate 0 (map (\<lambda>r. PStr (pr_page_id r)) (map rename_page ?P))"
  have res: "resolve_page_ids c de None (read_clock w) = Some (Inr (Series ?col), ?w1)"
    using lookup names(1)
    by (simp add: resolve_page_ids_def truthy_def column_of_records_def)
  have it: "iterate (Series ?col) = map PStr names"
    by (simp add: iterate_def comp_def rename_page_def)
  have ne: "dot_empty (Series ?col) = Inr False"
    using names(1) by (simp add: dot_empty_def)
  have "\<exists>s' w'. leads_for c 0 ds de (map PStr names) (initial_state ds) ?w1 = Some (Inr s', w')
       \<and> itr s' = itr (initial_state ds :: lead loop_state) + 2 * length names
       \<and> requests w' = requests ?w1 + 2 * length names
       \<and> trace w' = trace ?w1 @ concat (map (lead_requests ds de) names)"
    by (rule leads_for_two_each [OF leads time pandas(2)])
       (use names in simp_all)
  then obtain s' w' where f: "leads_for c 0 ds de (map PStr names) (initial_state ds) ?w1 = Some (Inr s', w')"
    "requests w' = requests ?w1 + 2 * length names"
    "trace w' = trace ?w1 @ concat (map (lead_requests ds de) names)"
    by blast
  have "bulk_get_leads c ds de lead_id_list None w = Some (leads_filters (df s') lead_id_list, w')"
    using res ne it f(1) clock(1)
    by (simp add: bulk_get_leads_def Let_def initial_state_def)
  moreover have "requests w' = requests w + 2 + 2 * length names"
    using f(2) by (simp add: read_clock_def)
  moreover have "trace w' = trace w @
                [PagesRequest None de ?P, PagesRequest (Some (pg_createdAt (last ?P))) de ?P]
                @ concat (map (lead_requests ds de) names)"
    using f(3) by (simp add: read_clock_def)
  ultimately show ?thesis by blast
qed

lemma busy_ids_facts: "busy_ids \<noteq> []" "distinct busy_ids" "length busy_ids = 247"
  by (simp_all add: busy_ids_def distinct_map inj_on_def)

lemma busy_conn_simps [simp]:
  "get_pages busy_conn n ds de = map demo_page busy_ids"
  "get_page_leads busy_conn n (PStr p) ds de = [demo_lead p]"
  "datetime_now busy_conn k = 0"
  "extract_timeout_time busy_conn = 3600"
  "pages_columns busy_conn = demo_pages_columns"
  "leads_columns busy_conn = demo_leads_columns"
  "astype busy_conn = demo_astype"
  by (simp_all add: busy_conn_def demo_conn_def)

lemma counted_lead_requests: "filter (\<lambda>e. \<not> counted e) (concat (map (lead_requests og de) names)) = []"
  by (induction names) (simp_all add: lead_requests_def)

section \<open>The seconds of a time difference\<close>

lemma timedelta_seconds_range: "0 \<le> timedelta_seconds d \<and> timedelta_seconds d \<le> 86399"
proof -
  define m where "m = d mod 86400000000"
  have m: "0 \<le> m" "m \<le> 86399999999"
    by (simp_all add: m_def zle_diff1_eq [symmetric, of m 86400000000] del: zle_diff1_eq)
  have "m div 1000000 \<le> 86399999999 div 1000000"
    using m(2) by (rule zdiv_mono1) simp
  moreover have "0 \<le> m div 1000000"
    using m(1) by (simp add: pos_imp_zdiv_nonneg_iff)
  ultimately show ?thesis
    by (simp add: timedelta_seconds_def m_def)
qed

lemma never_exceeded:
  "86399 \<le> extract_timeout_time c \<Longrightarrow> \<not> deadline_exceeded c st w"
  using timedelta_seconds_range [of "datetime_now c (clock_reads w) - st"]
  by (simp add: deadline_exceeded_def)

section \<open>The first two passes\<close>

lemma fetch_step_grows:
  assumes "fetch_step c st fetch ev infer cast key created s w = (fl, w')"
  shows "requests w \<le> requests w' \<and> prefix (trace w) (trace w')"
  using assms
  by (auto simp: fetch_step_def Let_def count_request_def world_defs split: if_splits)

lemma while_fetch_grows:
  assumes run: "while_cont (fetch_step c st fetch ev infer cast key created) s w = Some (r, w')"
  shows "requests w \<le> requests w' \<and> prefix (trace w) (trace w')"
proof -
  define I :: "'a loop_state \<Rightarrow> world \<Rightarrow> bool" where
    "I = (\<lambda>s v. requests w \<le> requests v \<and> prefix (trace w) (trace v))"
  define Q :: "(error + 'a loop_state) \<times> world \<Rightarrow> bool" where
    "Q = (\<lambda>(r, v). requests w \<le> requests v \<and> prefix (trace w) (trace v))"
  have "Q (r, w')"
  proof (rule while_cont_rule [where I = I, OF run])
    show "I s w" by (simp add: I_def)
  next
    fix s :: "'a loop_state" and v
    assume a: "I s v"
    obtain fl v1 where f: "fetch_step c st fetch ev infer cast key created s v = (fl, v1)"
      by (cases "fetch_step c st fetch ev infer cast key created s v")
    have "requests w \<le> requests v1 \<and> prefix (trace w) (trace v1)"
      using fetch_step_grows [OF f] a unfolding I_def
      by (meson order_trans prefix_order.order_trans)
    then show "case fetch_step c st fetch ev infer cast key created s v of
            (Raise e, w') \<Rightarrow> Q (Inl e, w')
          | (Break s', w') \<Rightarrow> Q (Inr s', w')
          | (Continue s', w') \<Rightarrow> I s' w'"
      by (cases fl) (simp_all add: f Q_def I_def)
  qed (simp add: Q_def I_def)
  then show ?thesis by (simp add: Q_def)
qed

lemma pages_first_two_passes:
  assumes nd: "\<not> deadline_exceeded c (datetime_now c (clock_reads w)) (read_clock w)"
      "\<not> deadline_exceeded c (datetime_now c (clock_reads w)) (read_clock (read_clock w))"
    and first: "get_pages c (requests w) ds de = P" "P \<noteq> []"
    and second: "get_pages c (Suc (requests w)) (Some (pg_createdAt (last P))) de = Q"
  shows "\<exists>s1 w1 fl w2.
           pages_body c (datetime_now c (clock_reads w)) de (initial_state ds) (read_clock w)
             = (Continue s1, w1) \<and>
           cont s1 \<and> date_start s1 = Some (pg_createdAt (last P)) \<and>
           pages_body c (datetime_now c (clock_reads w)) de s1 w1 = (fl, w2) \<and>
           (Q = [] \<and> fl = Break (s1\<lparr>call_counter := call_counter s1 + 1\<rparr>) \<or>
            Q \<noteq> [] \<and> fl = Continue (absorbed c (pages_columns c) (cast_page c) pg_id pg_createdAt Q s1)) \<and>
           requests w2 = requests w + 2 \<and>
           trace w2 = trace w @ [PagesRequest ds de P,
                                 PagesRequest (Some (pg_createdAt (last P))) de Q]"
proof -
  let ?st = "datetime_now c (clock_reads w)"
  let ?s = "initial_state ds :: page loop_state"
  let ?fetch = "\<lambda>n ds. get_pages c n ds de"
  let ?ev = "\<lambda>ds ps. PagesRequest ds de ps"
  let ?body = "fetch_step c ?st ?fetch ?ev (pages_columns c) (cast_page c) pg_id pg_createdAt"
  let ?w0 = "read_clock w"
  let ?s1 = "absorbed c (pages_columns c) (cast_page c) pg_id pg_createdAt P ?s"
  let ?w1 = "send_request (?ev ds P) (read_clock ?w0)"
  have step1: "?body ?s ?w0 = (Continue ?s1, ?w1)"
    using fetch_step_records [where fetch = ?fetch and s = ?s and w = ?w0 and ev = ?ev
        and created = pg_createdAt and infer = "pages_columns c" and cast = "cast_page c"
        and key = pg_id and new = P and c = c and st = ?st, OF nd(1)] first
    by (simp add: world_defs)
  have c1: "cont ?s1"
    using absorbed_uniform(2) [where s = ?s and key = pg_id and cast = "cast_page c"
        and infer = "pages_columns c" and new = P and c = c and created = pg_createdAt] first(2)
    by simp
  have nd1: "\<not> deadline_exceeded c ?st ?w1"
    using nd(2) deadline_exceeded_cong [of ?w1 "read_clock ?w0" c ?st] by (simp add: world_defs)
  have req1: "?fetch (requests ?w1) (date_start ?s1) = Q"
    using second by (simp add: world_defs)
  show ?thesis
  proof (cases "Q = []")
    case True
    have "?body ?s1 ?w1 = (Break (?s1\<lparr>call_counter := call_counter ?s1 + 1\<rparr>),
                           send_request (?ev (date_start ?s1) []) (read_clock ?w1))"
      using fetch_step_empty [where fetch = ?fetch and s = ?s1 and ev = ?ev and key = pg_id
          and created = pg_createdAt and infer = "pages_columns c" and cast = "cast_page c",
          OF nd1] req1 True by simp
    with step1 c1 True show ?thesis
      unfolding pages_body_fetch_step by (simp add: world_defs)
  next
    case False
    have "?body ?s1 ?w1 = (Continue (absorbed c (pages_columns c) (cast_page c) pg_id pg_createdAt Q ?s1),
            (if itr ?s1 + 1 = 495 then record_event (Sleep 60) else id)
              (send_request (?ev (date_start ?s1) Q) (read_clock ?w1)))"
      using fetch_step_records [where fetch = ?fetch and s = ?s1 and w = ?w1 and ev = ?ev
          and created = pg_createdAt and infer = "pages_columns c" and cast = "cast_page c"
          and key = pg_id, OF nd1 req1 False] .
    with step1 c1 False show ?thesis
      unfolding pages_body_fetch_step by (simp add: world_defs)
  qed
qed

lemma bulk_get_pages_at_least_two:
  assumes nd: "\<not> deadline_exceeded c (datetime_now c (clock_reads w)) (read_clock w)"
      "\<not> deadline_exceeded c (datetime_now c (clock_reads w)) (read_clock (read_clock w))"
    and first: "get_pages c (requests w) ds de = P" "P \<noteq> []"
    and second: "get_pages c (Suc (requests w)) (Some (pg_createdAt (last P))) de = Q"
    and run: "bulk_get_pages c ds de dl pl st w = Some (r, w')"
  shows "requests w + 2 \<le> requests w' \<and>
         prefix (trace w @ [PagesRequest ds de P,
                            PagesRequest (Some (pg_createdAt (last P))) de Q]) (trace w')"
proof -
  let ?body = "pages_body c (datetime_now c (clock_reads w)) de"
  from pages_first_two_passes [OF nd first second]
  obtain s1 w1 fl w2 where
    p1: "?body (initial_state ds) (read_clock w) = (Continue s1, w1)" "cont s1"
    and p2: "?body s1 w1 = (fl, w2)"
      "Q = [] \<and> fl = Break (s1\<lparr>call_counter := call_counter s1 + 1\<rparr>) \<or>
       Q \<noteq> [] \<and> fl = Continue (absorbed c (pages_columns c) (cast_page c) pg_id pg_createdAt Q s1)"
    and w2: "requests w2 = requests w + 2"
      "trace w2 = trace w @ [PagesRequest ds de P, PagesRequest (Some (pg_createdAt (last P))) de Q]"
    by blast
  from run obtain r1 where
    loop: "while_cont ?body (initial_state ds) (read_clock w) = Some (r1, w')"
    by (auto simp: bulk_get_pages_loop split: option.splits sum.splits)
  have "while_cont ?body (initial_state ds) (read_clock w) = while_cont ?body s1 w1"
    by (rule while_cont_continue [where body = ?body and s = "initial_state ds", OF _ p1(1)]) simp
  with loop have loop1: "while_cont ?body s1 w1 = Some (r1, w')" by simp
  from p2(2) show ?thesis
  proof (elim disjE conjE)
    assume "fl = Break (s1\<lparr>call_counter := call_counter s1 + 1\<rparr>)"
    with p2(1) p1(2) have "while_cont ?body s1 w1 =
        Some (Inr (s1\<lparr>call_counter := call_counter s1 + 1\<rparr>), w2)"
      by (intro while_cont_break [where body = ?body]) simp_all
    with loop1 have "w' = w2" by simp
    with w2 show ?thesis by simp
  next
    let ?s2 = "absorbed c (pages_columns c) (cast_page c) pg_id pg_createdAt Q s1"
    assume "fl = Continue ?s2"
    with p2(1) p1(2) have "while_cont ?body s1 w1 = while_cont ?body ?s2 w2"
      by (intro while_cont_continue [where body = ?body]) simp_all
    with loop1 have "while_cont ?body ?s2 w2 = Some (r1, w')" by simp
    then have "requests w2 \<le> requests w' \<and> prefix (trace w2) (trace w')"
      unfolding pages_body_fetch_step by (rule while_fetch_grows)
    with w2 show ?thesis by simp
  qed
qed

section \<open>Runs of the examples\<close>




lemma variants_conn_simps [simp]:
  "get_page_leads variants_conn n page_id ds de = demo_variants"
  "datetime_now variants_conn k = 0"
  "extract_timeout_time variants_conn = 3600"
  "leads_columns variants_conn = demo_leads_columns"
  "cast_lead variants_conn = cast_lead demo_conn"
  by (simp_all add: variants_conn_def demo_conn_def cast_lead_def fun_eq_iff)

lemma variants_conn_in_time [simp]: "\<not> deadline_exceeded variants_conn 0 w"
  by (simp add: deadline_exceeded_def timedelta_seconds_def)





lemma row_fields_rename_page [simp]: "row_fields (rename_page p) = page_fields p"
  by (simp add: row_fields_def rename_page_def page_fields_def)


text \<open>A response whose column \<open>x\<close> has another dtype than the accumulated one.\<close>

lemma columns_grown_other:
  assumes "columns d = Some ca" and "new \<noteq> []" and "ca \<noteq> infer new"
  shows "columns (grown c infer cast new d) = Some (concat_columns c ca (infer new))"
  using assms by (simp add: grown_def append_df_def DataFrame_def)

lemma retype_conn_run:
  "\<exists>r w'. bulk_get_pages retype_conn None None None None None fresh_world = Some (r, w')
     \<and> requests w' = 3
     \<and> trace w' = [PagesRequest None None [null_page, flag_page],
                   PagesRequest (Some ''2020-01-01T00:00:00.000Z'') None [flag_page],
                   PagesRequest (Some ''2020-01-01T00:00:00.000Z'') None []]"
proof -
  let ?c = retype_conn
  let ?P = "[null_page, flag_page]" and ?Q = "[flag_page]"
  let ?fetch = "\<lambda>n ds. get_pages ?c n ds None"
  let ?ev = "\<lambda>ds ps. PagesRequest ds None ps"
  let ?body = "fetch_step ?c 0 ?fetch ?ev (pages_columns ?c) (cast_page ?c) pg_id pg_createdAt"
  let ?s0 = "initial_state None :: page loop_state"
  let ?w0 = "read_clock fresh_world"
  let ?s1 = "absorbed ?c (pages_columns ?c) (cast_page ?c) pg_id pg_createdAt ?P ?s0"
  let ?w1 = "send_request (?ev None ?P) (read_clock ?w0)"
  let ?s2 = "absorbed ?c (pages_columns ?c) (cast_page ?c) pg_id pg_createdAt ?Q ?s1"
  let ?w2 = "send_request (?ev (date_start ?s1) ?Q) (read_clock ?w1)"
  let ?s3 = "?s2\<lparr>call_counter := call_counter ?s2 + 1\<rparr>"
  let ?w3 = "send_request (?ev (date_start ?s2) []) (read_clock ?w2)"
  have c: "datetime_now ?c = (\<lambda>k. 0)" "extract_timeout_time ?c = 3600"
    "pages_columns ?c = demo_pages_columns" "concat_columns ?c = demo_concat_columns"
    "get_pages ?c 0 ds de = ?P" "get_pages ?c (Suc 0) ds de = ?Q" "get_pages ?c (Suc (Suc 0)) ds de = []"
    for ds de
    by (simp_all add: retype_conn_def demo_conn_def)
  have time: "\<not> deadline_exceeded ?c 0 v" for v
    by (simp add: deadline_exceeded_def timedelta_seconds_def c)
  have colsP: "demo_pages_columns ?P =
      [(''id'', Dobject), (''createdAt'', Dobject), (''domain'', Dobject), (''state'', Dobject),
       (''x'', Dobject)]"
    and colsQ: "demo_pages_columns ?Q =
      [(''id'', Dobject), (''createdAt'', Dobject), (''domain'', Dobject), (''state'', Dobject),
       (''x'', Dbool)]"
    by (simp_all add: demo_pages_columns_def demo_rest_columns_def first_names_def demo_dtype_def
        null_page_def flag_page_def)
  have step1: "?body ?s0 ?w0 = (Continue ?s1, ?w1)"
    using fetch_step_records [where fetch = ?fetch and s = ?s0 and w = ?w0 and ev = ?ev
        and created = pg_createdAt and infer = "pages_columns ?c" and cast = "cast_page ?c"
        and key = pg_id and new = ?P and c = ?c and st = 0, OF time]
    by (simp add: c world_defs fresh_world_def)
  have s1: "cont ?s1" "df ?s1 = Frame (Some (pages_columns ?c ?P))
      (rows (df ?s0) @ kept_rows (row_keys pg_id (rows (df ?s0))) pg_id
         (map_rows (cast_page ?c (pages_columns ?c ?P)) (List.enumerate 0 ?P)))"
    using absorbed_uniform [where s = ?s0 and key = pg_id and cast = "cast_page ?c"
        and infer = "pages_columns ?c" and new = ?P and c = ?c and created = pg_createdAt]
    by simp_all
  have step2: "?body ?s1 ?w1 = (Continue ?s2, ?w2)"
    using fetch_step_records [where fetch = ?fetch and s = ?s1 and w = ?w1 and ev = ?ev
        and created = pg_createdAt and infer = "pages_columns ?c" and cast = "cast_page ?c"
        and key = pg_id and new = ?Q and c = ?c and st = 0, OF time]
    by (simp add: c world_defs fresh_world_def)
  have "columns (grown ?c (pages_columns ?c) (cast_page ?c) ?Q (df ?s1)) =
          Some (concat_columns ?c (pages_columns ?c ?P) (pages_columns ?c ?Q))"
    by (rule columns_grown_other) (use s1(2) in \<open>simp_all add: c colsP colsQ\<close>)
  then have "\<not> equals (DataFrame (pages_columns ?c) (cast_page ?c) ?Q)
      (select_mask (grown ?c (pages_columns ?c) (cast_page ?c) ?Q (df ?s1))
         (duplicated pg_id (grown ?c (pages_columns ?c) (cast_page ?c) ?Q (df ?s1))))"
    by (simp add: equals_def select_mask_def DataFrame_def c colsP colsQ demo_concat_columns_def
        common_dtype_def)
  then have s2: "cont ?s2"
    using s1(1) by (simp add: absorbed_def)
  have step3: "?body ?s2 ?w2 = (Break ?s3, ?w3)"
    using fetch_step_empty [where fetch = ?fetch and s = ?s2 and w = ?w2 and ev = ?ev
        and created = pg_createdAt and infer = "pages_columns ?c" and cast = "cast_page ?c"
        and key = pg_id and c = ?c and st = 0, OF time]
    by (simp add: c world_defs fresh_world_def)
  have "while_cont ?body ?s0 ?w0 = while_cont ?body ?s1 ?w1"
    by (rule while_cont_continue [where body = ?body, OF _ step1]) simp
  also have "\<dots> = while_cont ?body ?s2 ?w2"
    by (rule while_cont_continue [where body = ?body, OF s1(1) step2])
  also have "\<dots> = Some (Inr ?s3, ?w3)"
    by (rule while_cont_break [where body = ?body, OF s2 step3])
  finally have "bulk_get_pages ?c None None None None None fresh_world =
      Some (pages_filters (df ?s3) None None None, ?w3)"
    by (simp add: bulk_get_pages_loop pages_body_fetch_step c fresh_world_def)
  moreover have "requests ?w3 = 3"
    "trace ?w3 = [PagesRequest None None [null_page, flag_page],
                   PagesRequest (Some ''2020-01-01T00:00:00.000Z'') None [flag_page],
                   PagesRequest (Some ''2020-01-01T00:00:00.000Z'') None []]"
    by (simp_all add: world_defs fresh_world_def flag_page_def demo_page_def)
  ultimately show ?thesis by blast
qed

section \<open>The claims\<close>

text \<open>
  C2. With a non-empty \<open>page_id_list\<close>, \<open>bulk_get_leads\<close> takes the list itself as
  \<open>page_ids_all\<close> and sends no request for Pages. It then reads \<open>page_ids_all.empty\<close>,
  which a Python list does not have: the method raises \<open>AttributeError\<close> before any
  request for Leads, for every connection, every list and every other argument.
  \<open>bulk_extract\<close> with a \<open>page_id\<close> filter for Leads ends so, since it passes
  the filter on as a list.
\<close>

theorem page_id_list_raises_AttributeError:
  "bulk_get_leads c ds de lead_id_list (Some (x # xs)) w = Some (Inl AttributeError, read_clock w) \<and>
   bulk_extract c ''leads'' (PDict [(''page_id'', PStr p)]) w = Some (Inl AttributeError, read_clock w)"
proof -
  have 1: "bulk_get_leads c ds de lead_id_list (Some (x # xs)) w = Some (Inl AttributeError, read_clock w)"
    for ds de lead_id_list x xs
    by (simp add: bulk_get_leads_def resolve_page_ids_def truthy_def dot_empty_def Let_def)
  have "lead_filter_args c (PDict [(''page_id'', PStr p)]) = Inr ((None, None), None, Some [PStr p])"
    by (simp add: lead_filter_args_def LEAD_FILTER_TYPES_def optional_range_def optional_list_def
        str_or_list_def)
  then have "bulk_extract c ''leads'' (PDict [(''page_id'', PStr p)]) w =
      Some (Inl AttributeError, read_clock w)"
    by (simp add: bulk_extract_def ACCEPTABLE_OBJ_TYPES_def process_bulk_leads_def 1)
  with 1 show ?thesis by simp
qed

text \<open>
  C3. When the look-up of the Pages receives no record, \<open>bulk_get_pages\<close> returns the
  empty list, and \<open>pd.DataFrame([])['page_id']\<close> raises \<open>KeyError\<close>: the test
  \<open>page_ids_all.empty\<close> that would return the empty list is never reached. The run sends
  the one request of the look-up and none for Leads.
\<close>

theorem no_pages_raises_KeyError:
  "bulk_get_leads
     (c\<lparr>get_pages := (\<lambda>n ds de. []), datetime_now := (\<lambda>k. 0), extract_timeout_time := 3600\<rparr>)
     ds de lead_id_list None w =
   Some (Inl KeyError,
         w\<lparr>clock_reads := clock_reads w + 3, requests := requests w + 1,
           trace := trace w @ [PagesRequest None de []]\<rparr>)"
proof -
  let ?c = "c\<lparr>get_pages := (\<lambda>n ds de. []), datetime_now := (\<lambda>k. 0), extract_timeout_time := 3600\<rparr>"
  let ?w2 = "read_clock (read_clock w)"
  let ?s0 = "\<lparr>df = empty_frame, date_start = None, cont = True, itr = 0, call_counter = 1\<rparr> :: page loop_state"
  have nd: "\<not> deadline_exceeded ?c 0 ?w2"
    by (simp add: deadline_exceeded_def timedelta_seconds_def)
  have "pages_body ?c 0 de ?s0 ?w2 =
          (Break (?s0\<lparr>call_counter := 2\<rparr>), send_request (PagesRequest None de []) (read_clock ?w2))"
    unfolding pages_body_fetch_step by (subst fetch_step_empty [OF nd]) simp_all
  then have "while_cont (pages_body ?c 0 de) ?s0 ?w2 =
          Some (Inr (?s0\<lparr>call_counter := 2\<rparr>), send_request (PagesRequest None de []) (read_clock ?w2))"
    by (intro while_cont_break) simp_all
  then have "bulk_get_pages ?c None de None None None (read_clock w) =
          Some (Inr [], send_request (PagesRequest None de []) (read_clock ?w2))"
    by (simp add: bulk_get_pages_def Let_def pages_filters_none frame_defs)
  then show ?thesis
    by (simp add: bulk_get_leads_def resolve_page_ids_def truthy_def Let_def frame_defs world_defs)
qed

text \<open>
  C1, as amended. The loop has no test for a short page. After a first page that is not
  empty (of fewer than 1000 records or not), when the time limit is not reached at the
  first two checks, the first pass leaves \<open>cont\<close> true and \<open>date_start\<close> at the
  \<open>createdAt\<close> of the last record of that page, and the second pass sends a second
  request from there: a run that returns has sent at least these two requests. When the
  second response is empty, or holds only ids of the first page in a page of the same
  columns and dtypes, \<open>bulk_get_pages\<close> returns after exactly these two requests.
\<close>

theorem second_request_after_first_page:
  assumes "\<not> deadline_exceeded c (datetime_now c (clock_reads w)) (read_clock w)"
    and "\<not> deadline_exceeded c (datetime_now c (clock_reads w)) (read_clock (read_clock w))"
    and "get_pages c (requests w) ds de = P" and "P \<noteq> []"
    and "get_pages c (Suc (requests w)) (Some (pg_createdAt (last P))) de = Q"
  shows "(\<exists>s1 w1 fl w2.
            pages_body c (datetime_now c (clock_reads w)) de (initial_state ds) (read_clock w)
              = (Continue s1, w1)
            \<and> cont s1 \<and> date_start s1 = Some (pg_createdAt (last P))
            \<and> pages_body c (datetime_now c (clock_reads w)) de s1 w1 = (fl, w2)
            \<and> requests w2 = requests w + 2
            \<and> trace w2 = trace w @ [PagesRequest ds de P,
                                    PagesRequest (Some (pg_createdAt (last P))) de Q])
       \<and> (\<forall>r w'. bulk_get_pages c ds de domain_list page_id_list st w = Some (r, w') \<longrightarrow>
             requests w + 2 \<le> requests w'
             \<and> prefix (trace w @ [PagesRequest ds de P,
                                  PagesRequest (Some (pg_createdAt (last P))) de Q]) (trace w'))
       \<and> (Q = [] \<or> set (map pg_id Q) \<subseteq> set (map pg_id P) \<and> pages_columns c Q = pages_columns c P \<longrightarrow>
            (\<exists>r w'. bulk_get_pages c ds de domain_list page_id_list st w = Some (r, w')
               \<and> requests w' = requests w + 2
               \<and> trace w' = trace w @ [PagesRequest ds de P,
                                       PagesRequest (Some (pg_createdAt (last P))) de Q]))"
proof (intro conjI allI impI)
  show "\<exists>s1 w1 fl w2.
            pages_body c (datetime_now c (clock_reads w)) de (initial_state ds) (read_clock w)
              = (Continue s1, w1)
            \<and> cont s1 \<and> date_start s1 = Some (pg_createdAt (last P))
            \<and> pages_body c (datetime_now c (clock_reads w)) de s1 w1 = (fl, w2)
            \<and> requests w2 = requests w + 2
            \<and> trace w2 = trace w @ [PagesRequest ds de P,
                                    PagesRequest (Some (pg_createdAt (last P))) de Q]"
    using pages_first_two_passes [OF assms] by blast
next
  fix r w'
  assume "bulk_get_pages c ds de domain_list page_id_list st w = Some (r, w')"
  from bulk_get_pages_at_least_two [OF assms this]
  show "requests w + 2 \<le> requests w'"
    and "prefix (trace w @ [PagesRequest ds de P,
                            PagesRequest (Some (pg_createdAt (last P))) de Q]) (trace w')"
    by simp_all
next
  assume "Q = [] \<or> set (map pg_id Q) \<subseteq> set (map pg_id P) \<and> pages_columns c Q = pages_columns c P"
  then have "set (map pg_id Q) \<subseteq> set (map pg_id P)" "Q = [] \<or> pages_columns c Q = pages_columns c P"
    by auto
  from bulk_get_pages_two_requests [OF assms this]
  show "\<exists>r w'. bulk_get_pages c ds de domain_list page_id_list st w = Some (r, w')
               \<and> requests w' = requests w + 2
               \<and> trace w' = trace w @ [PagesRequest ds de P,
                                       PagesRequest (Some (pg_createdAt (last P))) de Q]"
    by simp
qed

text \<open>The theorem at the connection whose client always answers with the one Page \<open>a\<close>.\<close>

theorem second_request_after_first_page_witness:
  "(\<exists>s1 w1 fl w2.
      pages_body demo_conn 0 None (initial_state None) (read_clock fresh_world) = (Continue s1, w1)
      \<and> cont s1 \<and> date_start s1 = Some ''2020-01-01T00:00:00.000Z''
      \<and> pages_body demo_conn 0 None s1 w1 = (fl, w2)
      \<and> requests w2 = 2) \<and>
   (\<exists>r w'. bulk_get_pages demo_conn None None None None None fresh_world = Some (r, w')
      \<and> requests w' = 2
      \<and> trace w' = [PagesRequest None None [demo_page ''a''],
                    PagesRequest (Some ''2020-01-01T00:00:00.000Z'') None [demo_page ''a'']])"
  using second_request_after_first_page [of demo_conn fresh_world None None "[demo_page ''a'']"
      "[demo_page ''a'']" None None None]
  by (simp add: fresh_world_def demo_page_def numeral_2_eq_2) blast

text \<open>
  C1 as stated fails: the first response holds one record, fewer than 1000, and the loop
  sends two requests, not one.
\<close>

theorem short_first_page_counterexample:
  "get_pages demo_conn 0 None None \<noteq> [] \<and> length (get_pages demo_conn 0 None None) < 1000 \<and>
   map_option (\<lambda>(r, w'). requests w') (bulk_get_pages demo_conn None None None None None fresh_world)
     = Some 2"
proof -
  have "bulk_get_pages demo_conn None None None None None fresh_world =
      Some (pages_filters
              (Frame (Some (pages_columns demo_conn [demo_page ''a'']))
                 (kept_rows [] pg_id
                    (map_rows (cast_page demo_conn (pages_columns demo_conn [demo_page ''a'']))
                       (List.enumerate 0 [demo_page ''a'']))))
              None None None,
            fresh_world\<lparr>clock_reads := clock_reads fresh_world + 3, requests := requests fresh_world + 2,
              trace := trace fresh_world @ [PagesRequest None None [demo_page ''a''],
                       PagesRequest (Some (pg_createdAt (last [demo_page ''a'']))) None [demo_page ''a'']]\<rparr>)"
    by (rule bulk_get_pages_two_requests) simp_all
  then show ?thesis by (simp add: fresh_world_def)
qed

text \<open>
  The condition on the columns and dtypes is needed. The first response holds two Pages
  with a field \<open>x\<close>, \<open>null\<close> in the one and \<open>true\<close> in the other, so the
  column \<open>x\<close> is of dtype object; the second response holds the second Page alone,
  whose column \<open>x\<close> is of dtype bool. The frame of the second response does not equal
  the frame of the duplicates, and a third request is sent.
\<close>

theorem dtype_change_third_request:
  "map_option (\<lambda>(r, w'). (requests w', map pages_of (trace w')))
     (bulk_get_pages retype_conn None None None None None fresh_world) =
   Some (3, [[null_page, flag_page], [flag_page], []])"
proof -
  obtain r w' where "bulk_get_pages retype_conn None None None None None fresh_world = Some (r, w')"
    "requests w' = 3"
    "trace w' = [PagesRequest None None [null_page, flag_page],
                 PagesRequest (Some ''2020-01-01T00:00:00.000Z'') None [flag_page],
                 PagesRequest (Some ''2020-01-01T00:00:00.000Z'') None []]"
    using retype_conn_run by blast
  then show ?thesis by simp
qed

text \<open>
  C4. The check compares \<open>timedelta.seconds\<close>, the seconds within the day, with the time
  limit, not the whole elapsed time. With a limit of 90000 seconds the error is raised at
  no check, whatever the clock shows; and with 90001 seconds elapsed at the second check,
  where \<open>timedelta.seconds\<close> is 3601, the second request is sent and the Pages are
  returned, although the time limit is exceeded.
\<close>

theorem deadline_missed_after_a_day:
  "\<not> deadline_exceeded (c\<lparr>extract_timeout_time := 90000\<rparr>) st w \<and>
   extract_timeout_time slow_conn * 1000000 < datetime_now slow_conn 2 - datetime_now slow_conn 0 \<and>
   bulk_get_pages slow_conn None None None None None fresh_world =
     Some (Inr [rename_page (demo_page ''a'')],
           \<lparr>clock_reads = 3, requests = 2,
            trace = [PagesRequest None None [demo_page ''a''],
                     PagesRequest (Some (pg_createdAt (demo_page ''a''))) None [demo_page ''a'']]\<rparr>)"
proof -
  have "bulk_get_pages slow_conn None None None None None fresh_world =
      Some (pages_filters
              (Frame (Some (pages_columns slow_conn [demo_page ''a'']))
                 (kept_rows [] pg_id
                    (map_rows (cast_page slow_conn (pages_columns slow_conn [demo_page ''a'']))
                       (List.enumerate 0 [demo_page ''a'']))))
              None None None,
            fresh_world\<lparr>clock_reads := clock_reads fresh_world + 3, requests := requests fresh_world + 2,
              trace := trace fresh_world @ [PagesRequest None None [demo_page ''a''],
                       PagesRequest (Some (pg_createdAt (last [demo_page ''a'']))) None [demo_page ''a'']]\<rparr>)"
    by (rule bulk_get_pages_two_requests)
       (simp_all add: deadline_exceeded_def timedelta_seconds_def read_clock_def fresh_world_def)
  moreover have "\<not> deadline_exceeded (c\<lparr>extract_timeout_time := 90000\<rparr>) st w"
    by (rule never_exceeded) simp
  ultimately show ?thesis
    using demo_columns(1) [of "[''a'']"] demo_cast(1) [of slow_conn "''a''"]
    by (simp add: pages_filters_none to_dict_def fresh_world_def)
qed

text \<open>
  C6. A client that answers every request with the same page of one record: the loop ends
  after at most two requests. If the time limit is reached at the first or the second
  check, \<open>RecursionError\<close> is raised; otherwise exactly two requests are sent and the
  result is that one record, as the row of the frame made of it.
\<close>

theorem constant_single_record_page:
  assumes "\<forall>n ds' de'. get_pages c n ds' de' = [a]"
  shows "\<exists>r w'. bulk_get_pages c ds de None None None w = Some (r, w')
           \<and> requests w' \<le> requests w + 2
           \<and> (if deadline_exceeded c (datetime_now c (clock_reads w)) (read_clock w)
                  \<or> deadline_exceeded c (datetime_now c (clock_reads w)) (read_clock (read_clock w))
                then r = Inl RecursionError
                else r = Inr [rename_page (cast_page c (pages_columns c [a]) a)]
                   \<and> requests w' = requests w + 2)"
proof -
  let ?st = "datetime_now c (clock_reads w)"
  let ?s = "initial_state ds :: page loop_state"
  let ?fetch = "\<lambda>n ds. get_pages c n ds de"
  let ?ev = "\<lambda>ds ps. PagesRequest ds de ps"
  let ?body = "fetch_step c ?st ?fetch ?ev (pages_columns c) (cast_page c) pg_id pg_createdAt"
  let ?w0 = "read_clock w"
  show ?thesis
  proof (cases "deadline_exceeded c ?st ?w0")
    case True
    have "?body ?s ?w0 = (Raise RecursionError, read_clock ?w0)"
      by (rule fetch_step_deadline [OF True])
    then have "while_cont ?body ?s ?w0 = Some (Inl RecursionError, read_clock ?w0)"
      by (intro while_cont_raise) simp_all
    then show ?thesis
      using True by (simp add: bulk_get_pages_loop pages_body_fetch_step world_defs)
  next
    case first: False
    show ?thesis
    proof (cases "deadline_exceeded c ?st (read_clock ?w0)")
      case True
      let ?s1 = "absorbed c (pages_columns c) (cast_page c) pg_id pg_createdAt [a] ?s"
      let ?w1 = "send_request (?ev (date_start ?s) [a]) (read_clock ?w0)"
      have "?body ?s ?w0 = (Continue ?s1, ?w1)"
        using fetch_step_records [where fetch = ?fetch and s = ?s and w = ?w0 and ev = ?ev
            and created = pg_createdAt and key = pg_id and new = "[a]"
            and infer = "pages_columns c" and cast = "cast_page c", OF first] assms
        by simp
      then have 1: "while_cont ?body ?s ?w0 = while_cont ?body ?s1 ?w1"
        by (intro while_cont_continue) simp_all
      have "deadline_exceeded c ?st ?w1"
        using True deadline_exceeded_cong [of ?w1 "read_clock ?w0" c ?st] by (simp add: world_defs)
      then have "?body ?s1 ?w1 = (Raise RecursionError, read_clock ?w1)"
        by (rule fetch_step_deadline)
      moreover have "cont ?s1"
        using absorbed_uniform(2) [where s = ?s and key = pg_id and cast = "cast_page c"
            and infer = "pages_columns c" and new = "[a]" and c = c and created = pg_createdAt]
        by simp
      ultimately have "while_cont ?body ?s1 ?w1 = Some (Inl RecursionError, read_clock ?w1)"
        by (intro while_cont_raise)
      with 1 True show ?thesis
        by (simp add: bulk_get_pages_loop pages_body_fetch_step world_defs)
    next
      case False
      have "bulk_get_pages c ds de None None None w =
          Some (pages_filters
                  (Frame (Some (pages_columns c [a]))
                     (kept_rows [] pg_id
                        (map_rows (cast_page c (pages_columns c [a])) (List.enumerate 0 [a]))))
                  None None None,
                w\<lparr>clock_reads := clock_reads w + 3, requests := requests w + 2,
                  trace := trace w @ [PagesRequest ds de [a],
                                      PagesRequest (Some (pg_createdAt (last [a]))) de [a]]\<rparr>)"
        using first False assms by (intro bulk_get_pages_two_requests) simp_all
      then show ?thesis
        using first False by (simp add: pages_filters_none to_dict_def)
    qed
  qed
qed

text \<open>The theorem at the connection whose client always answers with the one Page \<open>a\<close>.\<close>

theorem constant_single_record_page_witness:
  "\<exists>w'. bulk_get_pages demo_conn None None None None None fresh_world
          = Some (Inr [rename_page (demo_page ''a'')], w')
     \<and> requests w' = 2"
  using constant_single_record_page [of demo_conn "demo_page ''a''" None None fresh_world]
    demo_columns(1) [of "[''a'']"] demo_cast(1) [of demo_conn "''a''"]
  by (auto simp: fresh_world_def)

text \<open>
  C9. A pass of either loop body that is in time and receives records goes on to the end
  of the body, and there \<open>date_start\<close> is the creation timestamp of the last record of
  the response as received: \<open>createdAt\<close> for Pages, \<open>created_at\<close> for Leads.
\<close>

theorem cursor_is_last_raw_record:
  "(\<not> deadline_exceeded c st w \<and> get_pages c (requests w) (date_start s) de = pages \<and> pages \<noteq> []
      \<longrightarrow> (\<exists>s' w'. pages_body c st de s w = (Continue s', w')
                   \<and> date_start s' = Some (pg_createdAt (last pages)))) \<and>
   (\<not> deadline_exceeded c st w \<and> get_page_leads c (requests w) page_id (date_start t) de = leads
      \<and> leads \<noteq> []
      \<longrightarrow> (\<exists>t' w'. leads_body c st de page_id t w = (Continue t', w')
                   \<and> date_start t' = Some (ld_created_at (last leads))))"
  by (auto simp: pages_body_def leads_body_def Let_def count_request_def read_clock_def)

text \<open>The theorem at the first pass of each loop for the example connection.\<close>

theorem cursor_is_last_raw_record_witness:
  "(\<exists>s' w'. pages_body demo_conn 0 None (initial_state None) fresh_world = (Continue s', w')
       \<and> date_start s' = Some ''2020-01-01T00:00:00.000Z'') \<and>
   (\<exists>t' w'. leads_body demo_conn 0 None (PStr ''a'') (initial_state None) fresh_world = (Continue t', w')
       \<and> date_start t' = Some ''2020-01-02T00:00:00.000Z'')"
  using cursor_is_last_raw_record [of demo_conn 0 fresh_world "initial_state None" None
      "[demo_page ''a'']" "PStr ''a''" "initial_state None" "[demo_lead ''a'']"]
  by (simp add: demo_page_def demo_lead_def)

text \<open>
  C8. A \<open>filters\<close> argument that is no dictionary, has a key that is not a filter type
  of the extract, a \<open>created_at\<close> value that is no dictionary or has another key than
  \<open>date_start\<close> and \<open>date_end\<close>, a date that is no string or that \<open>strptime\<close>
  rejects, an end date equal to or earlier than the start date, a \<open>domain\<close>,
  \<open>page_id\<close> or \<open>lead_id\<close> that is neither string nor list, or a \<open>state\<close> other
  than \<open>published\<close> and \<open>unpublished\<close>: \<open>bulk_extract\<close> raises \<open>ValueError\<close> or
  \<open>TypeError\<close>, and the world is as it was: no request sent, the clock not read.
\<close>

theorem invalid_filters_rejected:
  assumes "extract_obj = ''pages'' \<or> extract_obj = ''leads''"
    and "invalid_filters c extract_obj filters"
  shows "\<exists>e. bulk_extract c extract_obj filters w = Some (Inl e, w) \<and> validation_error e"
proof -
  from assms(1) show ?thesis
  proof
    assume p: "extract_obj = ''pages''"
    then obtain e where e: "page_filter_args c filters = Inl e"
      using page_filter_args_invalid assms(2) by blast
    then have "validation_error e" by (rule page_filter_args_error)
    with e p show ?thesis
      by (simp add: bulk_extract_def ACCEPTABLE_OBJ_TYPES_def process_bulk_pages_def)
  next
    assume l: "extract_obj = ''leads''"
    then obtain e where e: "lead_filter_args c filters = Inl e"
      using lead_filter_args_invalid assms(2) by blast
    then have "validation_error e" by (rule lead_filter_args_error)
    with e l show ?thesis
      by (simp add: bulk_extract_def ACCEPTABLE_OBJ_TYPES_def process_bulk_leads_def)
  qed
qed

text \<open>
  The theorem at the two date filters of the specification: equal dates, and an end date
  before the start date.
\<close>

theorem invalid_filters_rejected_witness:
  "(\<exists>e. bulk_extract demo_conn ''pages''
          (PDict [(''created_at'', PDict [(''date_start'', PStr ''2020-01-01''),
                                          (''date_end'', PStr ''2020-01-01'')])]) fresh_world
        = Some (Inl e, fresh_world) \<and> validation_error e) \<and>
   (\<exists>e. bulk_extract demo_conn ''pages''
          (PDict [(''created_at'', PDict [(''date_start'', PStr ''2020-02-01''),
                                          (''date_end'', PStr ''2020-01-01'')])]) fresh_world
        = Some (Inl e, fresh_world) \<and> validation_error e)"
  using invalid_filters_rejected [of "''pages''" demo_conn
      "PDict [(''created_at'', PDict [(''date_start'', PStr ''2020-01-01''),
                                      (''date_end'', PStr ''2020-01-01'')])]" fresh_world]
    invalid_filters_rejected [of "''pages''" demo_conn
      "PDict [(''created_at'', PDict [(''date_start'', PStr ''2020-02-01''),
                                      (''date_end'', PStr ''2020-01-01'')])]" fresh_world]
  by (simp add: invalid_filters_def invalid_date_range_def malformed_date_def
      empty_or_inverted_def date_of_def demo_strptime_def)






text \<open>
  C5, as amended. One bulk Leads operation has two request counters, not one: the look-up
  of the Pages counts in the \<open>itr\<close> of \<open>bulk_get_pages\<close>, the requests for Leads
  count in the \<open>itr\<close> of \<open>bulk_get_leads\<close>, which starts at 0 after the look-up and is
  not reset between Page IDs. The events of the operation are those of the look-up
  followed by those of the fan-out, and each part goes with a counter of its own that
  starts at 0: a request counts one (whether a request that received no record counts is
  left open); when the count is 495 the sleep of 60 seconds follows before any other
  request and the count is 0 again; there is no other sleep.
\<close>

theorem two_request_counters:
  assumes "bulk_get_leads c ds de lead_id_list page_id_list w = Some (r, w')"
  shows "\<exists>lookup fanout m n. trace w' = trace w @ lookup @ fanout
           \<and> list_all (\<lambda>e. \<not> is_leads_request e) lookup
           \<and> m \<in> governor 0 lookup \<and> m < 495
           \<and> list_all (\<lambda>e. \<not> is_pages_request e) fanout
           \<and> n \<in> governor 0 fanout \<and> n < 495"
  using assms
proof (cases rule: bulk_get_leads_cases)
  case (stopped r1)
  then obtain m where "governed (\<lambda>e. \<not> is_leads_request e) (trace (read_clock w)) 0 m w'"
    using resolve_page_ids_governed by blast
  then obtain lookup where "trace w' = trace w @ lookup @ []"
    "list_all (\<lambda>e. \<not> is_leads_request e) lookup" "m \<in> governor 0 lookup" "m < 495"
    by (auto simp: governed_iff read_clock_def)
  moreover have "list_all (\<lambda>e. \<not> is_pages_request e) []" "0 \<in> governor 0 []" "(0::nat) < 495"
    by simp_all
  ultimately show ?thesis by blast
next
  case (fanned page_ids_all w1 r2)
  obtain m where "governed (\<lambda>e. \<not> is_leads_request e) (trace (read_clock w)) 0 m w1"
    using resolve_page_ids_governed [OF fanned(1)] by blast
  then obtain lookup where l: "trace w1 = trace w @ lookup"
    "list_all (\<lambda>e. \<not> is_leads_request e) lookup" "m \<in> governor 0 lookup" "m < 495"
    by (auto simp: governed_iff read_clock_def)
  have "governed (\<lambda>e. \<not> is_pages_request e) (trace w1) 0 (itr (initial_state ds :: lead loop_state)) w1"
    by (simp add: governed_start)
  from leads_for_governed [OF fanned(2) this]
  obtain n where "governed (\<lambda>e. \<not> is_pages_request e) (trace w1) 0 n w'"
    by (cases r2) auto
  then obtain fanout where f: "trace w' = trace w1 @ fanout"
    "list_all (\<lambda>e. \<not> is_pages_request e) fanout" "n \<in> governor 0 fanout" "n < 495"
    by (auto simp: governed_iff)
  from l f have "trace w' = trace w @ lookup @ fanout" by simp
  with l f show ?thesis by blast
qed

text \<open>
  The theorem at the example connection: two requests for the one Page, two for its
  Leads.
\<close>

theorem two_request_counters_witness:
  "\<exists>r w'. bulk_get_leads demo_conn None None None None fresh_world = Some (r, w')
     \<and> trace w' =
         [PagesRequest None None [demo_page ''a''],
          PagesRequest (Some (pg_createdAt (demo_page ''a''))) None [demo_page ''a''],
          LeadsRequest (PStr ''a'') None None [demo_lead ''a''],
          LeadsRequest (PStr ''a'') (Some (ld_created_at (demo_lead ''a''))) None [demo_lead ''a'']]
     \<and> (\<exists>lookup fanout m n. trace w' = trace fresh_world @ lookup @ fanout
           \<and> list_all (\<lambda>e. \<not> is_leads_request e) lookup
           \<and> m \<in> governor 0 lookup \<and> m < 495
           \<and> list_all (\<lambda>e. \<not> is_pages_request e) fanout
           \<and> n \<in> governor 0 fanout \<and> n < 495)"
proof -
  obtain r w' where run: "bulk_get_leads demo_conn None None None None fresh_world = Some (r, w')"
    and tr: "trace w' = trace fresh_world @
                [PagesRequest None None (map demo_page [''a'']),
                 PagesRequest (Some (pg_createdAt (last (map demo_page [''a''])))) None (map demo_page [''a''])]
                @ concat (map (lead_requests None None) [''a''])"
    using bulk_get_leads_two_each [of demo_conn "[''a'']" None None None fresh_world]
    by auto
  from tr have "trace w' =
         [PagesRequest None None [demo_page ''a''],
          PagesRequest (Some (pg_createdAt (demo_page ''a''))) None [demo_page ''a''],
          LeadsRequest (PStr ''a'') None None [demo_lead ''a''],
          LeadsRequest (PStr ''a'') (Some (ld_created_at (demo_lead ''a''))) None [demo_lead ''a'']]"
    by (simp add: fresh_world_def lead_requests_def)
  with run two_request_counters [OF run] show ?thesis by blast
qed

text \<open>
  C5 as stated fails. Against an account of 247 Pages with one Lead each the operation
  sends 496 requests, two for the Pages and two for the Leads of each Page, every one
  answered with records: the trace holds no event that is not such a request, so no
  sleep, where one counter for all requests had reached 495 before the last request.
\<close>

theorem shared_counter_counterexample:
  "map_option (\<lambda>(r, w'). (requests w', filter (\<lambda>e. \<not> counted e) (trace w')))
     (bulk_get_leads busy_conn None None None None fresh_world) = Some (496, [])"
proof -
  obtain r w' where run: "bulk_get_leads busy_conn None None None None fresh_world = Some (r, w')"
    and req: "requests w' = requests fresh_world + 2 + 2 * length busy_ids"
    and tr: "trace w' = trace fresh_world @
                [PagesRequest None None (map demo_page busy_ids),
                 PagesRequest (Some (pg_createdAt (last (map demo_page busy_ids)))) None (map demo_page busy_ids)]
                @ concat (map (lead_requests None None) busy_ids)"
    using bulk_get_leads_two_each [of busy_conn busy_ids None None None fresh_world]
      busy_ids_facts by auto
  have "requests w' = 496"
    using req by (simp add: busy_ids_facts fresh_world_def)
  moreover have "filter (\<lambda>e. \<not> counted e) (trace w') = []"
    using busy_ids_facts(1) by (simp add: tr fresh_world_def counted_lead_requests)
  ultimately show ?thesis using run by simp
qed

end
